theory Spec2Isabelle
  imports Complex_Main "HOL-Library.Multiset"
begin

section \<open>The environment: random sources, the wall clock, errors\<close>

text \<open>
  A random source (\<open>random.Random\<close>) is modelled by the sequence of its future
  draws. A finite list stands for the stream that continues with zeros. The only
  primitive the program reaches is \<open>_randbelow n\<close>, a number below \<open>n\<close>; here the
  next draw reduced modulo \<open>n\<close>, so that all outcomes are covered as the source ranges
  over all lists.
\<close>

type_synonym rng = "nat list"

definition randbelow :: "nat \<Rightarrow> rng \<Rightarrow> nat \<times> rng" where
  "randbelow n g = (case g of [] \<Rightarrow> (0, []) | x # xs \<Rightarrow> (x mod n, xs))"

text \<open>
  \<open>Random.shuffle\<close> of CPython:
  \<^verbatim>\<open>for i in reversed(range(1, len(x))): j = randbelow(i + 1); x[i], x[j] = x[j], x[i]\<close>
\<close>

fun shuffle_from :: "nat \<Rightarrow> 'a list \<Rightarrow> rng \<Rightarrow> 'a list \<times> rng" where
  "shuffle_from 0 xs g = (xs, g)"
| "shuffle_from (Suc k) xs g =
     (let (j, g') = randbelow (Suc (Suc k)) g
      in shuffle_from k (xs[Suc k := xs ! j, j := xs ! Suc k]) g')"

definition shuffle :: "'a list \<Rightarrow> rng \<Rightarrow> 'a list \<times> rng" where
  "shuffle xs g = shuffle_from (length xs - 1) xs g"

text \<open>
  \<open>Random.sample(population, k)\<close> of CPython on a small population (the pool branch):
  \<^verbatim>\<open>for i in range(k): j = randbelow(n - i); result[i] = pool[j]; pool[j] = pool[n - i - 1]\<close>
  The pool is kept at its live length \<open>n - i\<close>.
\<close>

fun sample_pool :: "nat \<Rightarrow> 'a list \<Rightarrow> rng \<Rightarrow> 'a list \<times> rng" where
  "sample_pool 0 pool g = ([], g)"
| "sample_pool (Suc k) pool g =
     (let (j, g') = randbelow (length pool) g;
          x = pool ! j;
          (rest, g'') = sample_pool k (butlast (pool[j := last pool])) g'
      in (x # rest, g''))"

definition sample :: "'a list \<Rightarrow> nat \<Rightarrow> rng \<Rightarrow> 'a list \<times> rng" where
  "sample population k g = sample_pool k population g"

text \<open>
  The wall clock (\<open>time.time()\<close>) is the sequence of its future readings, in seconds.
\<close>

type_synonym clock = "rat list"

definition time_time :: "clock \<Rightarrow> rat \<times> clock" where
  "time_time clk = (case clk of [] \<Rightarrow> (0, []) | t # ts \<Rightarrow> (t, ts))"

datatype error = ValueError string | AssertionError | KeyError

section \<open>geometry.py: the five-board topology\<close>

text \<open>
  Coordinates are Python ints that the program only ever takes from \<open>range\<close>, so they
  are natural numbers here. A board is the triple (name, row origin, column origin).
\<close>

definition BOARD_SIZE :: nat where
  "BOARD_SIZE = 21"

definition BOARDS :: "(string \<times> nat \<times> nat) list" where
  "BOARDS = [(''TL'', 0, 0), (''TR'', 0, 12), (''C'', 6, 6), (''BL'', 12, 0), (''BR'', 12, 12)]"

definition in_board :: "nat \<Rightarrow> nat \<Rightarrow> nat \<Rightarrow> nat \<Rightarrow> bool" where
  "in_board r c r0 c0 \<longleftrightarrow> r0 \<le> r \<and> r < r0 + 9 \<and> c0 \<le> c \<and> c < c0 + 9"

definition is_active_cell :: "nat \<Rightarrow> nat \<Rightarrow> bool" where
  "is_active_cell r c \<longleftrightarrow> (\<exists>b \<in> set BOARDS. in_board r c (fst (snd b)) (snd (snd b)))"

definition active_cells :: "(nat \<times> nat) list" where
  "active_cells =
     concat (map (\<lambda>r. map (\<lambda>c. (r, c)) (filter (\<lambda>c. is_active_cell r c) [0..<BOARD_SIZE]))
                 [0..<BOARD_SIZE])"

definition boards_covering_cell :: "nat \<Rightarrow> nat \<Rightarrow> (string \<times> nat \<times> nat) list" where
  "boards_covering_cell r c = filter (\<lambda>(name, r0, c0). in_board r c r0 c0) BOARDS"

definition row_cells_in_board :: "nat \<Rightarrow> nat \<Rightarrow> nat \<Rightarrow> (nat \<times> nat) list" where
  "row_cells_in_board r0 c0 rr = map (\<lambda>cc. (r0 + rr, c0 + cc)) [0..<9]"

definition col_cells_in_board :: "nat \<Rightarrow> nat \<Rightarrow> nat \<Rightarrow> (nat \<times> nat) list" where
  "col_cells_in_board r0 c0 cc = map (\<lambda>rr. (r0 + rr, c0 + cc)) [0..<9]"

definition box_cells_in_board :: "nat \<Rightarrow> nat \<Rightarrow> nat \<Rightarrow> nat \<Rightarrow> (nat \<times> nat) list" where
  "box_cells_in_board r0 c0 br bc =
     concat (map (\<lambda>rr. map (\<lambda>cc. (r0 + rr, c0 + cc)) [bc * 3..<bc * 3 + 3]) [br * 3..<br * 3 + 3])"

definition subgrid_index :: "nat \<Rightarrow> nat \<Rightarrow> nat \<Rightarrow> nat \<Rightarrow> nat \<times> nat" where
  "subgrid_index r c r0 c0 = ((r - r0) div 3, (c - c0) div 3)"

section \<open>model.py: the value grid\<close>

text \<open>
  \<open>Grid = List[List[Optional[int]]]\<close>, 21 by 21. The program indexes a grid only at
  cells of the five boards; \<open>wf_grid\<close> says that those indices exist.
\<close>

type_synonym grid = "nat option list list"

definition wf_grid :: "grid \<Rightarrow> bool" where
  "wf_grid g \<longleftrightarrow> length g = BOARD_SIZE \<and> list_all (\<lambda>row. length row = BOARD_SIZE) g"

definition empty_samurai_grid :: grid where
  "empty_samurai_grid = replicate BOARD_SIZE (replicate BOARD_SIZE None)"

definition copy_grid :: "grid \<Rightarrow> grid" where
  "copy_grid g = map (\<lambda>row. row) g"

definition set_cell :: "grid \<Rightarrow> nat \<Rightarrow> nat \<Rightarrow> nat option \<Rightarrow> grid" where
  "set_cell g r c v = g[r := (g ! r)[c := v]]"

definition is_cell_empty :: "grid \<Rightarrow> nat \<Rightarrow> nat \<Rightarrow> bool" where
  "is_cell_empty g r c \<longleftrightarrow> g ! r ! c = None"

definition used_in_board :: "grid \<Rightarrow> nat \<Rightarrow> nat \<Rightarrow> nat \<Rightarrow> nat \<Rightarrow> nat list" where
  "used_in_board g r c r0 c0 =
     (let rr = r - r0; cc = c - c0; (br, bc) = subgrid_index r c r0 c0
      in List.map_filter (\<lambda>x. g ! (r0 + rr) ! (c0 + x)) [0..<9]
       @ List.map_filter (\<lambda>y. g ! (r0 + y) ! (c0 + cc)) [0..<9]
       @ concat (map (\<lambda>rr3. List.map_filter (\<lambda>cc3. g ! (r0 + rr3) ! (c0 + cc3)) [bc * 3..<bc * 3 + 3])
                     [br * 3..<br * 3 + 3]))"

definition candidates :: "grid \<Rightarrow> nat \<Rightarrow> nat \<Rightarrow> nat list" where
  "candidates g r c =
     (let used = concat (map (\<lambda>(name, r0, c0). used_in_board g r c r0 c0) (boards_covering_cell r c))
      in filter (\<lambda>d. d \<notin> set used) [1..<10])"

definition valid_in_board :: "grid \<Rightarrow> nat \<Rightarrow> nat \<Rightarrow> nat \<Rightarrow> nat \<Rightarrow> nat \<Rightarrow> bool" where
  "valid_in_board g r c v r0 c0 =
     (let rr = r - r0; cc = c - c0; br = (rr div 3) * 3; bc = (cc div 3) * 3
      in list_all (\<lambda>x. \<not> (c0 + x \<noteq> c \<and> g ! (r0 + rr) ! (c0 + x) = Some v)) [0..<9]
       \<and> list_all (\<lambda>y. \<not> (r0 + y \<noteq> r \<and> g ! (r0 + y) ! (c0 + cc) = Some v)) [0..<9]
       \<and> list_all (\<lambda>y. list_all (\<lambda>x. \<not> ((r0 + br + y, c0 + bc + x) \<noteq> (r, c)
                                         \<and> g ! (r0 + br + y) ! (c0 + bc + x) = Some v)) [0..<3]) [0..<3])"

definition is_valid_assignment :: "grid \<Rightarrow> nat \<Rightarrow> nat \<Rightarrow> nat \<Rightarrow> bool" where
  "is_valid_assignment g r c v =
     list_all (\<lambda>(name, r0, c0). valid_in_board g r c v r0 c0) (boards_covering_cell r c)"

section \<open>solver.py: the solution-counting backtracker\<close>

fun find_next_cell_loop ::
  "grid \<Rightarrow> (nat \<times> nat) list \<Rightarrow> (nat \<times> nat \<times> nat list) option \<Rightarrow> (nat \<times> nat \<times> nat list) option" where
  "find_next_cell_loop g [] best = best"
| "find_next_cell_loop g ((r, c) # rest) best =
     (if g ! r ! c = None then
        (let cand = candidates g r c in
         if cand = [] then None
         else if (case best of None \<Rightarrow> True | Some (br, bc, bcand) \<Rightarrow> length cand < length bcand) then
           (if length cand = 1 then Some (r, c, cand)
            else find_next_cell_loop g rest (Some (r, c, cand)))
         else find_next_cell_loop g rest best)
      else find_next_cell_loop g rest best)"

definition find_next_cell :: "grid \<Rightarrow> (nat \<times> nat \<times> nat list) option" where
  "find_next_cell g = find_next_cell_loop g active_cells None"

text \<open>
  The closure \<open>backtrack\<close> of \<open>solve_unique\<close>. Its state is the grid it mutates, the
  counter \<open>count\<close> (written \<open>cnt\<close>), and the state of the module-level generator behind
  \<open>random.shuffle\<close> (the ambient source, not a parameter of \<open>solve_unique\<close>). The
  result is the returned flag with the state after the call.

  Every level of the recursion fills one empty active cell, so the depth never exceeds
  the number of active cells plus one. The recursion is written with that depth
  budget \<open>d\<close>; \<open>None\<close> is a budget that ran out.
\<close>

type_synonym bt_state = "grid \<times> nat \<times> rng"

fun backtrack :: "nat \<Rightarrow> int \<Rightarrow> grid \<Rightarrow> nat \<Rightarrow> rng \<Rightarrow> (bool \<times> bt_state) option"
  and try_values :: "nat \<Rightarrow> int \<Rightarrow> nat \<Rightarrow> nat \<Rightarrow> nat list \<Rightarrow> grid \<Rightarrow> nat \<Rightarrow> rng \<Rightarrow> (bool \<times> bt_state) option"
where
  "backtrack d lmt grid cnt amb =
     (if d = 0 then None
      else case find_next_cell grid of
        None \<Rightarrow>
          if list_ex (\<lambda>(r, c). grid ! r ! c = None) active_cells then Some (False, grid, cnt, amb)
          else Some (lmt \<le> int (cnt + 1), grid, cnt + 1, amb)
      | Some (r, c, cand) \<Rightarrow>
          (let (cand', amb') = shuffle cand amb
           in try_values (d - 1) lmt r c cand' grid cnt amb'))"
| "try_values d lmt r c [] grid cnt amb = Some (False, grid, cnt, amb)"
| "try_values d lmt r c (v # vs) grid cnt amb =
     (if is_valid_assignment grid r c v then
        (case backtrack d lmt (set_cell grid r c (Some v)) cnt amb of
           None \<Rightarrow> None
         | Some (stop, grid', cnt', amb') \<Rightarrow>
             if stop then Some (True, grid', cnt', amb')
             else try_values d lmt r c vs (set_cell grid' r c None) cnt' amb')
      else try_values d lmt r c vs grid cnt amb)"

definition solve_unique :: "grid \<Rightarrow> int \<Rightarrow> rng \<Rightarrow> ((bool \<times> nat) \<times> grid \<times> rng) option" where
  "solve_unique g limit_solutions amb =
     (case backtrack (Suc (length active_cells)) limit_solutions g 0 amb of
        None \<Rightarrow> None
      | Some (stop, grid', cnt, amb') \<Rightarrow> Some ((0 < cnt, cnt), grid', amb'))"

section \<open>dlx9.py: the single-board solver\<close>

text \<open>
  A result is \<open>None\<close> when the call does not return, \<open>Some (Inl e)\<close> when it raises
  \<open>e\<close>, and \<open>Some (Inr x)\<close> when it returns \<open>x\<close>.
\<close>

type_synonym 'a res = "(error + 'a) option"


type_synonym board9 = "nat list list"
type_synonym given = "nat \<times> nat \<times> nat"

definition box_index :: "nat \<Rightarrow> nat \<Rightarrow> nat" where
  "box_index r c = (r div 3) * 3 + c div 3"

definition col_ids_for_candidate :: "nat \<Rightarrow> nat \<Rightarrow> nat \<Rightarrow> nat list" where
  "col_ids_for_candidate r c d =
     [0 + r * 9 + d, 81 + c * 9 + d, 162 + box_index r c * 9 + d, 243 + r * 9 + c]"

definition row_id :: "nat \<Rightarrow> nat \<Rightarrow> nat \<Rightarrow> nat" where
  "row_id r c d = (r * 9 + c) * 9 + d"


definition all_candidates :: "(nat \<times> nat \<times> nat) list" where
  "all_candidates = concat (map (\<lambda>r. concat (map (\<lambda>c. map (\<lambda>d. (r, c, d)) [0..<9]) [0..<9])) [0..<9])"

definition cols_for_row :: "nat list list" where
  "cols_for_row = map (\<lambda>(r, c, d). col_ids_for_candidate r c d) all_candidates"











text \<open>\<open>_solve_from_scratch\<close>: the randomized backtracking fill.\<close>

record scratch =
  rows :: "nat set list"
  cols :: "nat set list"
  boxs :: "nat set list"
  board :: board9

definition place :: "nat \<Rightarrow> nat \<Rightarrow> nat \<Rightarrow> scratch \<Rightarrow> scratch" where
  "place r c v s =
     (let b = (r div 3) * 3 + c div 3
      in \<lparr>rows = (rows s)[r := insert v (rows s ! r)],
          cols = (cols s)[c := insert v (cols s ! c)],
          boxs = (boxs s)[b := insert v (boxs s ! b)],
          board = (board s)[r := (board s ! r)[c := v]]\<rparr>)"

text \<open>\<open>set.remove\<close> raises \<open>KeyError\<close> when the element is missing.\<close>

definition unplace :: "nat \<Rightarrow> nat \<Rightarrow> nat \<Rightarrow> scratch \<Rightarrow> error + scratch" where
  "unplace r c v s =
     (let b = (r div 3) * 3 + c div 3 in
      if v \<notin> rows s ! r \<or> v \<notin> cols s ! c \<or> v \<notin> boxs s ! b then Inl KeyError
      else Inr \<lparr>rows = (rows s)[r := rows s ! r - {v}],
                cols = (cols s)[c := cols s ! c - {v}],
                boxs = (boxs s)[b := boxs s ! b - {v}],
                board = (board s)[r := (board s ! r)[c := 0]]\<rparr>)"

text \<open>
  The closure \<open>backtrack(i)\<close>; the list argument is \<open>cells[i:]\<close>. The result is the
  returned flag with the state and the random source after the call.
\<close>

fun fill_from :: "(nat \<times> nat) list \<Rightarrow> scratch \<Rightarrow> rng \<Rightarrow> error + (bool \<times> scratch \<times> rng)"
  and fill_try :: "nat \<Rightarrow> nat \<Rightarrow> (nat \<times> nat) list \<Rightarrow> nat list \<Rightarrow> scratch \<Rightarrow> rng \<Rightarrow> error + (bool \<times> scratch \<times> rng)"
where
  "fill_from [] s g = Inr (True, s, g)"
| "fill_from ((r, c) # rest) s g =
     (let b = (r div 3) * 3 + c div 3;
          (smp, g') = sample [1..<10] 9 g;
          cand = filter (\<lambda>v. v \<notin> rows s ! r \<and> v \<notin> cols s ! c \<and> v \<notin> boxs s ! b) smp
      in fill_try r c rest cand s g')"
| "fill_try r c rest [] s g = Inr (False, s, g)"
| "fill_try r c rest (v # vs) s g =
     (case fill_from rest (place r c v s) g of
        Inl e \<Rightarrow> Inl e
      | Inr (ok, s', g') \<Rightarrow>
          if ok then Inr (True, s', g')
          else (case unplace r c v s' of
                  Inl e \<Rightarrow> Inl e
                | Inr s'' \<Rightarrow> fill_try r c rest vs s'' g'))"

definition scratch_init :: "given list \<Rightarrow> scratch" where
  "scratch_init givens =
     fold (\<lambda>(r, c, d) s. place r c (d + 1) s) givens
          \<lparr>rows = replicate 9 {}, cols = replicate 9 {}, boxs = replicate 9 {},
           board = replicate 9 (replicate 9 0)\<rparr>"

definition solve_from_scratch :: "rng \<Rightarrow> given list \<Rightarrow> error + (board9 \<times> rng)" where
  "solve_from_scratch g givens =
     (let s = scratch_init givens;
          cells = filter (\<lambda>(r, c). board s ! r ! c = 0)
                    (concat (map (\<lambda>r. map (\<lambda>c. (r, c)) [0..<9]) [0..<9]))
      in case fill_from cells s g of
           Inl e \<Rightarrow> Inl e
         | Inr (ok, s', g') \<Rightarrow> if ok then Inr (board s', g') else Inl AssertionError)"



section \<open>generator.py: composition, digging, the entry point\<close>


text \<open>
  \<open>str.lower\<close> on the letters A to Z. A character outside ASCII is left as it is; Python
  maps such a character to a character outside ASCII again, so in both cases the result
  is none of the four keys.
\<close>

definition lower_char :: "char \<Rightarrow> char" where
  "lower_char ch = (let n = (of_char ch :: nat) in if 65 \<le> n \<and> n \<le> 90 then char_of (n + 32) else ch)"

definition lower :: "string \<Rightarrow> string" where
  "lower s = map lower_char s"

definition embed :: "board9 \<Rightarrow> grid \<Rightarrow> nat \<Rightarrow> nat \<Rightarrow> grid" where
  "embed board9 g r0 c0 =
     fold (\<lambda>r g. fold (\<lambda>c g. set_cell g (r0 + r) (c0 + c) (Some (board9 ! r ! c))) [0..<9] g) [0..<9] g"






definition count_clues :: "(nat \<times> nat) list \<Rightarrow> grid \<Rightarrow> nat" where
  "count_clues actives g = length (filter (\<lambda>(r, c). g ! r ! c \<noteq> None) actives)"

text \<open>
  One pass of the body of the \<open>for r, c in actives\<close> loop of \<open>_dig_holes_to_target\<close>.
  The state is the puzzle, the ambient random source (read by \<open>solve_unique\<close>) and the
  clock. The flag of the result says whether the loop was left by \<open>break\<close>.
  \<open>solve_unique\<close> works on a fresh copy of the puzzle, so the grid it leaves behind is
  dropped.
\<close>

definition dig_body ::
  "int \<Rightarrow> rat \<Rightarrow> (nat \<times> nat) list \<Rightarrow> nat \<times> nat \<Rightarrow> grid \<times> rng \<times> clock \<Rightarrow> (bool \<times> grid \<times> rng \<times> clock) option" where
  "dig_body target_clues uniq_timeout_s actives cell st =
     (case (cell, st) of ((r, c), (puzzle, amb, clk)) \<Rightarrow>
        if int (count_clues actives puzzle) \<le> target_clues then Some (True, puzzle, amb, clk)
        else (case puzzle ! r ! c of
                None \<Rightarrow> Some (False, puzzle, amb, clk)
              | Some v \<Rightarrow>
                  (let p1 = set_cell puzzle r c None;
                       (start, clk1) = time_time clk
                   in case solve_unique (copy_grid p1) 2 amb of
                        None \<Rightarrow> None
                      | Some ((has, nsol), used, amb') \<Rightarrow>
                          (let (now, clk2) = time_time clk1
                           in if now - start > uniq_timeout_s \<or> (\<not> has \<or> nsol \<noteq> 1)
                              then Some (False, set_cell p1 r c (Some v), amb', clk2)
                              else Some (False, p1, amb', clk2)))))"

fun dig_loop ::
  "int \<Rightarrow> rat \<Rightarrow> (nat \<times> nat) list \<Rightarrow> (nat \<times> nat) list \<Rightarrow> grid \<times> rng \<times> clock \<Rightarrow> (grid \<times> rng \<times> clock) option" where
  "dig_loop target_clues uniq_timeout_s actives [] st = Some st"
| "dig_loop target_clues uniq_timeout_s actives (cell # rest) st =
     (case dig_body target_clues uniq_timeout_s actives cell st of
        None \<Rightarrow> None
      | Some (brk, st') \<Rightarrow> if brk then Some st' else dig_loop target_clues uniq_timeout_s actives rest st')"

text \<open>
  The environment of a call: the explicit random source, the ambient one, the clock.
\<close>

type_synonym env = "rng \<times> rng \<times> clock"

definition dig_holes_to_target :: "grid \<Rightarrow> int \<Rightarrow> rat \<Rightarrow> env \<Rightarrow> (grid \<times> env) option" where
  "dig_holes_to_target solved target_clues uniq_timeout_s e =
     (case e of (g, amb, clk) \<Rightarrow>
        (let puzzle = copy_grid solved;
             (actives, g') = shuffle active_cells g
         in case dig_loop target_clues uniq_timeout_s actives actives (puzzle, amb, clk) of
              None \<Rightarrow> None
            | Some (puzzle', amb', clk') \<Rightarrow> Some (puzzle', g', amb', clk')))"

text \<open>
  The \<open>for attempt in range(3)\<close> loop with the fallback after it; \<open>n\<close> is the number of
  attempts left.
\<close>

fun dig_attempts :: "nat \<Rightarrow> grid \<Rightarrow> int \<Rightarrow> int \<Rightarrow> rat \<Rightarrow> bool \<Rightarrow> env \<Rightarrow> ((grid \<times> grid) \<times> env) option" where
  "dig_attempts 0 solved base_target target uniq_timeout_s adapt e =
     (case dig_holes_to_target solved (max base_target 210) uniq_timeout_s e of
        None \<Rightarrow> None
      | Some (puzzle, e') \<Rightarrow> Some ((puzzle, solved), e'))"
| "dig_attempts (Suc n) solved base_target target uniq_timeout_s adapt e =
     (case dig_holes_to_target solved target uniq_timeout_s e of
        None \<Rightarrow> None
      | Some (puzzle, g, amb, clk) \<Rightarrow>
          (case solve_unique (copy_grid puzzle) 2 amb of
             None \<Rightarrow> None
           | Some ((has, nsol), used, amb') \<Rightarrow>
               if has \<and> nsol = 1 then Some ((puzzle, solved), g, amb', clk)
               else if \<not> adapt then dig_attempts 0 solved base_target target uniq_timeout_s adapt (g, amb', clk)
               else dig_attempts n solved base_target (target + 10) uniq_timeout_s adapt (g, amb', clk)))"


section \<open>Auxiliary notions for the proofs\<close>

text \<open>
  The number of full grids the search of \<open>backtrack\<close> reaches from a grid when the
  candidates are tried in the order \<open>candidates\<close> lists them and the search is never cut
  short. It is the yardstick for the counter of \<open>solve_unique\<close>.
\<close>

fun count_leaves :: "nat \<Rightarrow> grid \<Rightarrow> nat" where
  "count_leaves d grid =
     (if d = 0 then 0
      else case find_next_cell grid of
        None \<Rightarrow> if list_ex (\<lambda>(r, c). grid ! r ! c = None) active_cells then 0 else 1
      | Some (r, c, cand) \<Rightarrow>
          sum_list (map (\<lambda>v. if is_valid_assignment grid r c v
                                then count_leaves (d - 1) (set_cell grid r c (Some v)) else 0) cand))"

definition solution_count :: "grid \<Rightarrow> nat" where
  "solution_count g = count_leaves (Suc (length active_cells)) g"

definition empties :: "grid \<Rightarrow> nat" where
  "empties g = length (filter (\<lambda>(r, c). g ! r ! c = None) active_cells)"

text \<open>
  What the claims about boards say. A unit (a row, a column or a box) is in order when it
  holds each digit from 1 to 9 exactly once. Cells of a 9x9 board are addressed through
  the topology functions with origin (0, 0).
\<close>

definition unit_values :: "board9 \<Rightarrow> (nat \<times> nat) list \<Rightarrow> nat list" where
  "unit_values b cells = map (\<lambda>(r, c). b ! r ! c) cells"

definition unit_ok :: "board9 \<Rightarrow> (nat \<times> nat) list \<Rightarrow> bool" where
  "unit_ok b cells \<longleftrightarrow> mset (unit_values b cells) = mset [1..<10]"

definition valid_board :: "board9 \<Rightarrow> bool" where
  "valid_board b \<longleftrightarrow>
     length b = 9 \<and> list_all (\<lambda>row. length row = 9) b
     \<and> list_all (\<lambda>k. unit_ok b (row_cells_in_board 0 0 k)) [0..<9]
     \<and> list_all (\<lambda>k. unit_ok b (col_cells_in_board 0 0 k)) [0..<9]
     \<and> list_all (\<lambda>k. unit_ok b (box_cells_in_board 0 0 (k div 3) (k mod 3))) [0..<9]"

definition givens_honoured :: "board9 \<Rightarrow> given list \<Rightarrow> bool" where
  "givens_honoured b givens \<longleftrightarrow> list_all (\<lambda>(r, c, d). b ! r ! c = d + 1) givens"

text \<open>
  Givens that can come from one 3x3 block of a solved board: coordinates and digits in
  range, pairwise different cells, pairwise different digits, all cells in one box.
\<close>

definition valid_givens :: "given list \<Rightarrow> bool" where
  "valid_givens givens \<longleftrightarrow>
     list_all (\<lambda>(r, c, d). r < 9 \<and> c < 9 \<and> d < 9) givens
     \<and> distinct (map (\<lambda>(r, c, d). (r, c)) givens)
     \<and> distinct (map (\<lambda>(r, c, d). d) givens)
     \<and> list_ex (\<lambda>k. list_all (\<lambda>(r, c, d). box_index r c = k) givens) [0..<9]"

text \<open>The board cut out of the canvas at an origin; an empty cell reads as 0.\<close>

definition board_at :: "grid \<Rightarrow> nat \<Rightarrow> nat \<Rightarrow> board9" where
  "board_at g r0 c0 =
     map (\<lambda>r. map (\<lambda>c. case g ! (r0 + r) ! (c0 + c) of None \<Rightarrow> 0 | Some v \<Rightarrow> v) [0..<9]) [0..<9]"

definition samurai_valid :: "grid \<Rightarrow> bool" where
  "samurai_valid g \<longleftrightarrow>
     list_all (\<lambda>(r, c). g ! r ! c \<noteq> None) active_cells
     \<and> list_all (\<lambda>(name, r0, c0). valid_board (board_at g r0 c0)) BOARDS"

text \<open>Working notions: a partially filled board without a clash, and a filled one.\<close>

definition dims9 :: "board9 \<Rightarrow> bool" where
  "dims9 b \<longleftrightarrow> length b = 9 \<and> (\<forall>r < 9. length (b ! r) = 9)"

definition same_unit :: "nat \<times> nat \<Rightarrow> nat \<times> nat \<Rightarrow> bool" where
  "same_unit p q \<longleftrightarrow>
     fst p = fst q \<or> snd p = snd q \<or> (fst p div 3 = fst q div 3 \<and> snd p div 3 = snd q div 3)"

definition consistent :: "board9 \<Rightarrow> bool" where
  "consistent b \<longleftrightarrow>
     (\<forall>r < 9. \<forall>c < 9. b ! r ! c \<le> 9)
     \<and> (\<forall>r < 9. \<forall>c < 9. \<forall>r' < 9. \<forall>c' < 9.
           (r, c) \<noteq> (r', c') \<and> same_unit (r, c) (r', c') \<and> b ! r ! c \<noteq> 0 \<longrightarrow> b ! r ! c \<noteq> b ! r' ! c')"

definition full9 :: "board9 \<Rightarrow> bool" where
  "full9 b \<longleftrightarrow> (\<forall>r < 9. \<forall>c < 9. b ! r ! c \<noteq> 0)"

text \<open>
  The bookkeeping sets of \<open>_solve_from_scratch\<close> agree with its board: each holds the
  digits present in its row, column or box.
\<close>

definition scratch_ok :: "scratch \<Rightarrow> bool" where
  "scratch_ok s \<longleftrightarrow>
     dims9 (board s) \<and> length (rows s) = 9 \<and> length (cols s) = 9 \<and> length (boxs s) = 9
     \<and> (\<forall>k < 9. rows s ! k = {v. v \<noteq> 0 \<and> (\<exists>c < 9. board s ! k ! c = v)})
     \<and> (\<forall>k < 9. cols s ! k = {v. v \<noteq> 0 \<and> (\<exists>r < 9. board s ! r ! k = v)})
     \<and> (\<forall>k < 9. boxs s ! k = {v. v \<noteq> 0 \<and> (\<exists>r < 9. \<exists>c < 9. box_index r c = k \<and> board s ! r ! c = v)})"

text \<open>A board that fills the listed cells of another one and clashes nowhere.\<close>

definition completes :: "board9 \<Rightarrow> (nat \<times> nat) list \<Rightarrow> board9 \<Rightarrow> bool" where
  "completes b cells b' \<longleftrightarrow>
     dims9 b' \<and> consistent b'
     \<and> (\<forall>r < 9. \<forall>c < 9. (r, c) \<notin> set cells \<longrightarrow> b' ! r ! c = b ! r ! c)
     \<and> (\<forall>(r, c) \<in> set cells. b' ! r ! c \<noteq> 0)"

text \<open>
  What a call of the closure \<open>backtrack\<close> of \<open>_solve_from_scratch\<close> may assume and what
  it establishes: it returns; on \<open>True\<close> the cells are filled without a clash; on \<open>False\<close>
  the state is as at the call and no filling of the cells without a clash exists.
\<close>

definition fill_pre :: "scratch \<Rightarrow> (nat \<times> nat) list \<Rightarrow> bool" where
  "fill_pre s cells \<longleftrightarrow>
     scratch_ok s \<and> consistent (board s) \<and> distinct cells
     \<and> (\<forall>(r, c) \<in> set cells. r < 9 \<and> c < 9 \<and> board s ! r ! c = 0)"

definition fill_post :: "scratch \<Rightarrow> (nat \<times> nat) list \<Rightarrow> error + (bool \<times> scratch \<times> rng) \<Rightarrow> bool" where
  "fill_post s cells res \<longleftrightarrow>
     (\<exists>ok s' g'. res = Inr (ok, s', g')
        \<and> (if ok then scratch_ok s' \<and> completes (board s) cells (board s')
            else s' = s \<and> (\<forall>b'. \<not> completes (board s) cells b')))"

text \<open>
  A solved board to start from, and the same board with its digits renamed; every set of
  givens inside one box is honoured by a renaming.
\<close>

definition base_digit :: "nat \<Rightarrow> nat \<Rightarrow> nat" where
  "base_digit r c = (3 * (r mod 3) + r div 3 + c) mod 9"

definition renamed_board :: "(nat \<Rightarrow> nat) \<Rightarrow> board9" where
  "renamed_board f = map (\<lambda>r. map (\<lambda>c. f (base_digit r c) + 1) [0..<9]) [0..<9]"

section \<open>Properties of the topology\<close>

lemma filter_cons_if: "filter P (x # xs) = (if P x then [x] else []) @ filter P xs"
  by simp

lemma boards_covering_cell_eq:
  "boards_covering_cell r c =
     (if r < 9 \<and> c < 9 then [(''TL'', 0, 0)] else []) @
     (if r < 9 \<and> 12 \<le> c \<and> c < 21 then [(''TR'', 0, 12)] else []) @
     (if 6 \<le> r \<and> r < 15 \<and> 6 \<le> c \<and> c < 15 then [(''C'', 6, 6)] else []) @
     (if 12 \<le> r \<and> r < 21 \<and> c < 9 then [(''BL'', 12, 0)] else []) @
     (if 12 \<le> r \<and> r < 21 \<and> 12 \<le> c \<and> c < 21 then [(''BR'', 12, 12)] else [])"
proof -
  have ib: "in_board r c 0 0 \<longleftrightarrow> r < 9 \<and> c < 9"
    "in_board r c 0 12 \<longleftrightarrow> r < 9 \<and> 12 \<le> c \<and> c < 21"
    "in_board r c 6 6 \<longleftrightarrow> 6 \<le> r \<and> r < 15 \<and> 6 \<le> c \<and> c < 15"
    "in_board r c 12 0 \<longleftrightarrow> 12 \<le> r \<and> r < 21 \<and> c < 9"
    "in_board r c 12 12 \<longleftrightarrow> 12 \<le> r \<and> r < 21 \<and> 12 \<le> c \<and> c < 21"
    by (simp_all add: in_board_def)
  show ?thesis
    by (simp only: boards_covering_cell_def BOARDS_def filter_cons_if filter.simps(1)
          case_prod_conv append_Nil2 ib)
qed

lemma box_cells_mem:
  "(r, c) \<in> set (box_cells_in_board r0 c0 br bc) \<longleftrightarrow>
     r0 + br * 3 \<le> r \<and> r < r0 + br * 3 + 3 \<and> c0 + bc * 3 \<le> c \<and> c < c0 + bc * 3 + 3"
proof -
  have "(r, c) \<in> set (box_cells_in_board r0 c0 br bc) \<longleftrightarrow>
          (\<exists>rr cc. br * 3 \<le> rr \<and> rr < br * 3 + 3 \<and> bc * 3 \<le> cc \<and> cc < bc * 3 + 3 \<and> r = r0 + rr \<and> c = c0 + cc)"
    by (auto simp: box_cells_in_board_def image_iff Bex_def)
  also have "\<dots> \<longleftrightarrow> r0 + br * 3 \<le> r \<and> r < r0 + br * 3 + 3 \<and> c0 + bc * 3 \<le> c \<and> c < c0 + bc * 3 + 3"
  proof
    assume "\<exists>rr cc. br * 3 \<le> rr \<and> rr < br * 3 + 3 \<and> bc * 3 \<le> cc \<and> cc < bc * 3 + 3 \<and> r = r0 + rr \<and> c = c0 + cc"
    then show "r0 + br * 3 \<le> r \<and> r < r0 + br * 3 + 3 \<and> c0 + bc * 3 \<le> c \<and> c < c0 + bc * 3 + 3"
      by auto
  next
    assume a: "r0 + br * 3 \<le> r \<and> r < r0 + br * 3 + 3 \<and> c0 + bc * 3 \<le> c \<and> c < c0 + bc * 3 + 3"
    then have "br * 3 \<le> r - r0 \<and> r - r0 < br * 3 + 3 \<and> bc * 3 \<le> c - c0 \<and> c - c0 < bc * 3 + 3
               \<and> r = r0 + (r - r0) \<and> c = c0 + (c - c0)"
      by auto
    then show "\<exists>rr cc. br * 3 \<le> rr \<and> rr < br * 3 + 3 \<and> bc * 3 \<le> cc \<and> cc < bc * 3 + 3 \<and> r = r0 + rr \<and> c = c0 + cc"
      by blast
  qed
  finally show ?thesis .
qed

lemma cover_at_most_two: "length (boards_covering_cell r c) \<le> 2"
  by (simp add: boards_covering_cell_eq)

lemma cover_two_cases:
  "length (boards_covering_cell r c) = 2 \<Longrightarrow>
     boards_covering_cell r c = [(''TL'', 0, 0), (''C'', 6, 6)] \<and> (r, c) \<in> set (box_cells_in_board 0 0 2 2)
   \<or> boards_covering_cell r c = [(''TR'', 0, 12), (''C'', 6, 6)] \<and> (r, c) \<in> set (box_cells_in_board 0 12 2 0)
   \<or> boards_covering_cell r c = [(''C'', 6, 6), (''BL'', 12, 0)] \<and> (r, c) \<in> set (box_cells_in_board 12 0 0 2)
   \<or> boards_covering_cell r c = [(''C'', 6, 6), (''BR'', 12, 12)] \<and> (r, c) \<in> set (box_cells_in_board 12 12 0 0)"
  unfolding boards_covering_cell_eq box_cells_mem
  by (simp split: if_splits)

lemma box_cells_eq_iff:
  "set (box_cells_in_board r0 c0 br bc) = set (box_cells_in_board r1 c1 br' bc') \<longleftrightarrow>
     r0 + br * 3 = r1 + br' * 3 \<and> c0 + bc * 3 = c1 + bc' * 3"
proof
  assume eq: "set (box_cells_in_board r0 c0 br bc) = set (box_cells_in_board r1 c1 br' bc')"
  have "(r0 + br * 3, c0 + bc * 3) \<in> set (box_cells_in_board r0 c0 br bc)"
    by (simp add: box_cells_mem)
  with eq have a: "(r0 + br * 3, c0 + bc * 3) \<in> set (box_cells_in_board r1 c1 br' bc')" by simp
  have "(r1 + br' * 3, c1 + bc' * 3) \<in> set (box_cells_in_board r1 c1 br' bc')"
    by (simp add: box_cells_mem)
  with eq have b: "(r1 + br' * 3, c1 + bc' * 3) \<in> set (box_cells_in_board r0 c0 br bc)" by simp
  from a b show "r0 + br * 3 = r1 + br' * 3 \<and> c0 + bc * 3 = c1 + bc' * 3"
    by (simp add: box_cells_mem)
next
  assume "r0 + br * 3 = r1 + br' * 3 \<and> c0 + bc * 3 = c1 + bc' * 3"
  then show "set (box_cells_in_board r0 c0 br bc) = set (box_cells_in_board r1 c1 br' bc')"
    by (auto simp: box_cells_mem)
qed

lemma boards_mem:
  "(n, r0, c0) \<in> set BOARDS \<longleftrightarrow>
     n = ''TL'' \<and> r0 = 0 \<and> c0 = 0 \<or> n = ''TR'' \<and> r0 = 0 \<and> c0 = 12 \<or> n = ''C'' \<and> r0 = 6 \<and> c0 = 6
   \<or> n = ''BL'' \<and> r0 = 12 \<and> c0 = 0 \<or> n = ''BR'' \<and> r0 = 12 \<and> c0 = 12"
  by (simp add: BOARDS_def)

lemma corners_disjoint:
  assumes "(n1, r1, c1) \<in> set BOARDS" "(n2, r2, c2) \<in> set BOARDS" "n1 \<noteq> ''C''" "n2 \<noteq> ''C''" "n1 \<noteq> n2"
  shows "\<not> (in_board r c r1 c1 \<and> in_board r c r2 c2)"
proof -
  from assms(1,3) have o1: "(r1 = 0 \<or> r1 = 12) \<and> (c1 = 0 \<or> c1 = 12)"
    unfolding boards_mem by blast
  from assms(2,4) have o2: "(r2 = 0 \<or> r2 = 12) \<and> (c2 = 0 \<or> c2 = 12)"
    unfolding boards_mem by blast
  from assms(1,2,5) have "r1 \<noteq> r2 \<or> c1 \<noteq> c2"
    unfolding boards_mem by auto
  with o1 o2 show ?thesis
    unfolding in_board_def by arith
qed

lemma distinct_concat_pairs:
  "distinct rs \<Longrightarrow> (\<And>r. distinct (f r)) \<Longrightarrow> distinct (concat (map (\<lambda>r. map (Pair r) (f r)) rs))"
  by (induction rs) (auto simp: distinct_map inj_on_def)

lemma overlap_cover:
  "(r, c) \<in> set (box_cells_in_board 0 0 2 2) \<Longrightarrow>
     boards_covering_cell r c = [(''TL'', 0, 0), (''C'', 6, 6)] \<and> in_board r c 0 0 \<and> in_board r c 6 6"
  "(r, c) \<in> set (box_cells_in_board 0 12 2 0) \<Longrightarrow>
     boards_covering_cell r c = [(''TR'', 0, 12), (''C'', 6, 6)] \<and> in_board r c 0 12 \<and> in_board r c 6 6"
  "(r, c) \<in> set (box_cells_in_board 12 0 0 2) \<Longrightarrow>
     boards_covering_cell r c = [(''C'', 6, 6), (''BL'', 12, 0)] \<and> in_board r c 12 0 \<and> in_board r c 6 6"
  "(r, c) \<in> set (box_cells_in_board 12 12 0 0) \<Longrightarrow>
     boards_covering_cell r c = [(''C'', 6, 6), (''BR'', 12, 12)] \<and> in_board r c 12 12 \<and> in_board r c 6 6"
  by (simp_all add: box_cells_mem boards_covering_cell_eq in_board_def)

lemma overlap_block_shape:
  "distinct (box_cells_in_board r0 c0 br bc) \<and> length (box_cells_in_board r0 c0 br bc) = 9"
proof -
  have "distinct (concat (map (\<lambda>r. map (Pair r) (map (\<lambda>cc. c0 + cc) [bc * 3..<bc * 3 + 3]))
                              (map (\<lambda>rr. r0 + rr) [br * 3..<br * 3 + 3])))"
    by (rule distinct_concat_pairs) (simp_all add: distinct_map inj_on_def)
  then have "distinct (box_cells_in_board r0 c0 br bc)"
    by (simp add: box_cells_in_board_def comp_def)
  moreover have "length (box_cells_in_board r0 c0 br bc) = 9"
    by (simp add: box_cells_in_board_def length_concat comp_def sum_list_triv)
  ultimately show ?thesis by simp
qed

text \<open>
  Claim C9. Every cell is covered by at most two boards. The cells covered by exactly
  two boards are exactly the cells of four blocks of nine cells each. Every cell of such a
  block is covered by the center board and by one corner board and by no other board, and
  the block is a whole box of both: box (2,2) of TL and box (0,0) of C, box (2,0) of TR and
  box (0,2) of C, box (0,2) of BL and box (2,0) of C, box (0,0) of BR and box (2,2) of C.
  No two corner boards share a cell.
\<close>

theorem topology_overlaps:
  "length (boards_covering_cell r c) \<le> 2
   \<and> (length (boards_covering_cell r c) = 2 \<longleftrightarrow>
        (r, c) \<in> set (box_cells_in_board 0 0 2 2) \<or> (r, c) \<in> set (box_cells_in_board 0 12 2 0)
      \<or> (r, c) \<in> set (box_cells_in_board 12 0 0 2) \<or> (r, c) \<in> set (box_cells_in_board 12 12 0 0))
   \<and> (length (boards_covering_cell r c) = 2 \<longrightarrow>
        boards_covering_cell r c = [(''TL'', 0, 0), (''C'', 6, 6)] \<and> (r, c) \<in> set (box_cells_in_board 0 0 2 2)
      \<or> boards_covering_cell r c = [(''TR'', 0, 12), (''C'', 6, 6)] \<and> (r, c) \<in> set (box_cells_in_board 0 12 2 0)
      \<or> boards_covering_cell r c = [(''C'', 6, 6), (''BL'', 12, 0)] \<and> (r, c) \<in> set (box_cells_in_board 12 0 0 2)
      \<or> boards_covering_cell r c = [(''C'', 6, 6), (''BR'', 12, 12)] \<and> (r, c) \<in> set (box_cells_in_board 12 12 0 0))
   \<and> ((r, c) \<in> set (box_cells_in_board 0 0 2 2) \<longrightarrow>
        boards_covering_cell r c = [(''TL'', 0, 0), (''C'', 6, 6)] \<and> in_board r c 0 0 \<and> in_board r c 6 6)
   \<and> ((r, c) \<in> set (box_cells_in_board 0 12 2 0) \<longrightarrow>
        boards_covering_cell r c = [(''TR'', 0, 12), (''C'', 6, 6)] \<and> in_board r c 0 12 \<and> in_board r c 6 6)
   \<and> ((r, c) \<in> set (box_cells_in_board 12 0 0 2) \<longrightarrow>
        boards_covering_cell r c = [(''C'', 6, 6), (''BL'', 12, 0)] \<and> in_board r c 12 0 \<and> in_board r c 6 6)
   \<and> ((r, c) \<in> set (box_cells_in_board 12 12 0 0) \<longrightarrow>
        boards_covering_cell r c = [(''C'', 6, 6), (''BR'', 12, 12)] \<and> in_board r c 12 12 \<and> in_board r c 6 6)
   \<and> set (box_cells_in_board 0 0 2 2) = set (box_cells_in_board 6 6 0 0)
   \<and> set (box_cells_in_board 0 12 2 0) = set (box_cells_in_board 6 6 0 2)
   \<and> set (box_cells_in_board 12 0 0 2) = set (box_cells_in_board 6 6 2 0)
   \<and> set (box_cells_in_board 12 12 0 0) = set (box_cells_in_board 6 6 2 2)
   \<and> distinct (box_cells_in_board 0 0 2 2) \<and> length (box_cells_in_board 0 0 2 2) = 9
   \<and> distinct (box_cells_in_board 0 12 2 0) \<and> length (box_cells_in_board 0 12 2 0) = 9
   \<and> distinct (box_cells_in_board 12 0 0 2) \<and> length (box_cells_in_board 12 0 0 2) = 9
   \<and> distinct (box_cells_in_board 12 12 0 0) \<and> length (box_cells_in_board 12 12 0 0) = 9
   \<and> (\<forall>(n1, r1, c1) \<in> set BOARDS. \<forall>(n2, r2, c2) \<in> set BOARDS.
         n1 \<noteq> ''C'' \<and> n2 \<noteq> ''C'' \<and> n1 \<noteq> n2 \<longrightarrow> \<not> (in_board r c r1 c1 \<and> in_board r c r2 c2))"
proof -
  have le: "length (boards_covering_cell r c) \<le> 2" by (rule cover_at_most_two)
  have fwd: "length (boards_covering_cell r c) = 2 \<longrightarrow>
        boards_covering_cell r c = [(''TL'', 0, 0), (''C'', 6, 6)] \<and> (r, c) \<in> set (box_cells_in_board 0 0 2 2)
      \<or> boards_covering_cell r c = [(''TR'', 0, 12), (''C'', 6, 6)] \<and> (r, c) \<in> set (box_cells_in_board 0 12 2 0)
      \<or> boards_covering_cell r c = [(''C'', 6, 6), (''BL'', 12, 0)] \<and> (r, c) \<in> set (box_cells_in_board 12 0 0 2)
      \<or> boards_covering_cell r c = [(''C'', 6, 6), (''BR'', 12, 12)] \<and> (r, c) \<in> set (box_cells_in_board 12 12 0 0)"
    using cover_two_cases by blast
  have c1: "(r, c) \<in> set (box_cells_in_board 0 0 2 2) \<longrightarrow>
        boards_covering_cell r c = [(''TL'', 0, 0), (''C'', 6, 6)] \<and> in_board r c 0 0 \<and> in_board r c 6 6"
    using overlap_cover(1) by blast
  have c2: "(r, c) \<in> set (box_cells_in_board 0 12 2 0) \<longrightarrow>
        boards_covering_cell r c = [(''TR'', 0, 12), (''C'', 6, 6)] \<and> in_board r c 0 12 \<and> in_board r c 6 6"
    using overlap_cover(2) by blast
  have c3: "(r, c) \<in> set (box_cells_in_board 12 0 0 2) \<longrightarrow>
        boards_covering_cell r c = [(''C'', 6, 6), (''BL'', 12, 0)] \<and> in_board r c 12 0 \<and> in_board r c 6 6"
    using overlap_cover(3) by blast
  have c4: "(r, c) \<in> set (box_cells_in_board 12 12 0 0) \<longrightarrow>
        boards_covering_cell r c = [(''C'', 6, 6), (''BR'', 12, 12)] \<and> in_board r c 12 12 \<and> in_board r c 6 6"
    using overlap_cover(4) by blast
  have iff: "length (boards_covering_cell r c) = 2 \<longleftrightarrow>
        (r, c) \<in> set (box_cells_in_board 0 0 2 2) \<or> (r, c) \<in> set (box_cells_in_board 0 12 2 0)
      \<or> (r, c) \<in> set (box_cells_in_board 12 0 0 2) \<or> (r, c) \<in> set (box_cells_in_board 12 12 0 0)"
  proof
    assume "length (boards_covering_cell r c) = 2"
    with fwd show "(r, c) \<in> set (box_cells_in_board 0 0 2 2) \<or> (r, c) \<in> set (box_cells_in_board 0 12 2 0)
      \<or> (r, c) \<in> set (box_cells_in_board 12 0 0 2) \<or> (r, c) \<in> set (box_cells_in_board 12 12 0 0)"
      by blast
  next
    assume "(r, c) \<in> set (box_cells_in_board 0 0 2 2) \<or> (r, c) \<in> set (box_cells_in_board 0 12 2 0)
      \<or> (r, c) \<in> set (box_cells_in_board 12 0 0 2) \<or> (r, c) \<in> set (box_cells_in_board 12 12 0 0)"
    then consider "boards_covering_cell r c = [(''TL'', 0, 0), (''C'', 6, 6)]"
      | "boards_covering_cell r c = [(''TR'', 0, 12), (''C'', 6, 6)]"
      | "boards_covering_cell r c = [(''C'', 6, 6), (''BL'', 12, 0)]"
      | "boards_covering_cell r c = [(''C'', 6, 6), (''BR'', 12, 12)]"
      using c1 c2 c3 c4 by blast
    then show "length (boards_covering_cell r c) = 2" by cases simp_all
  qed
  have e1: "set (box_cells_in_board 0 0 2 2) = set (box_cells_in_board 6 6 0 0)"
    by (simp add: box_cells_eq_iff)
  have e2: "set (box_cells_in_board 0 12 2 0) = set (box_cells_in_board 6 6 0 2)"
    by (simp add: box_cells_eq_iff)
  have e3: "set (box_cells_in_board 12 0 0 2) = set (box_cells_in_board 6 6 2 0)"
    by (simp add: box_cells_eq_iff)
  have e4: "set (box_cells_in_board 12 12 0 0) = set (box_cells_in_board 6 6 2 2)"
    by (simp add: box_cells_eq_iff)
  have cd: "\<forall>(n1, r1, c1) \<in> set BOARDS. \<forall>(n2, r2, c2) \<in> set BOARDS.
         n1 \<noteq> ''C'' \<and> n2 \<noteq> ''C'' \<and> n1 \<noteq> n2 \<longrightarrow> \<not> (in_board r c r1 c1 \<and> in_board r c r2 c2)"
    using corners_disjoint by blast
  note sh = overlap_block_shape [of 0 0 2 2] overlap_block_shape [of 0 12 2 0]
    overlap_block_shape [of 12 0 0 2] overlap_block_shape [of 12 12 0 0]
  show ?thesis
    using le iff fwd c1 c2 c3 c4 e1 e2 e3 e4 sh cd by (intro conjI) blast+
qed

theorem topology_overlaps_witness:
  "(7, 13) \<in> set (box_cells_in_board 0 12 2 0)
   \<and> length (boards_covering_cell 7 13) = 2
   \<and> boards_covering_cell 7 13 = [(''TR'', 0, 12), (''C'', 6, 6)]
   \<and> in_board 7 13 0 12 \<and> in_board 7 13 6 6
   \<and> (7, 13) \<in> set (box_cells_in_board 6 6 0 2)"
proof -
  have m1: "(7, 13) \<in> set (box_cells_in_board 0 12 2 0)"
    by (simp add: box_cells_mem)
  note t = topology_overlaps [of 7 13]
  note t_iff = t [THEN conjunct2, THEN conjunct1]
  note t_tr = t [THEN conjunct2, THEN conjunct2, THEN conjunct2, THEN conjunct2, THEN conjunct1]
  note t_eq = t [THEN conjunct2, THEN conjunct2, THEN conjunct2, THEN conjunct2, THEN conjunct2,
      THEN conjunct2, THEN conjunct2, THEN conjunct2, THEN conjunct1]
  from t_tr m1 have cov: "boards_covering_cell 7 13 = [(''TR'', 0, 12), (''C'', 6, 6)]
      \<and> in_board 7 13 0 12 \<and> in_board 7 13 6 6"
    by (rule mp)
  from t_iff m1 have len: "length (boards_covering_cell 7 13) = 2"
    by blast
  from t_eq m1 have m2: "(7, 13) \<in> set (box_cells_in_board 6 6 0 2)"
    by blast
  from m1 len cov m2 show ?thesis by blast
qed

section \<open>Properties of the solution-counting backtracker\<close>

declare backtrack.simps [simp del]

lemma set_cell_twice: "set_cell (set_cell g r c a) r c b = set_cell g r c b"
  by (cases "r < length g") (simp_all add: set_cell_def list_update_beyond)

lemma set_cell_same: "g ! r ! c = v \<Longrightarrow> set_cell g r c v = g"
  by (auto simp: set_cell_def)

lemma set_cell_restore: "g ! r ! c = None \<Longrightarrow> set_cell (set_cell g r c a) r c None = g"
  by (simp add: set_cell_twice set_cell_same)

lemma find_next_cell_loop_Some:
  "find_next_cell_loop g cells best = Some (r, c, cand) \<Longrightarrow>
     best = Some (r, c, cand) \<or> ((r, c) \<in> set cells \<and> g ! r ! c = None \<and> cand = candidates g r c \<and> cand \<noteq> [])"
  by (induction g cells best rule: find_next_cell_loop.induct)
     (auto simp: Let_def split: if_splits option.splits)

lemma find_next_cell_Some:
  "find_next_cell g = Some (r, c, cand) \<Longrightarrow>
     (r, c) \<in> set active_cells \<and> g ! r ! c = None \<and> cand = candidates g r c \<and> cand \<noteq> []"
  using find_next_cell_loop_Some [of g active_cells None r c cand]
  by (auto simp: find_next_cell_def)

lemma backtrack_frame_aux:
  "(backtrack d lmt grid cnt amb = Some (stop, g', cnt', amb') \<longrightarrow>
      cnt \<le> cnt' \<and> (stop \<longrightarrow> lmt \<le> int cnt') \<and> (\<not> stop \<longrightarrow> g' = grid))"
  "(try_values d lmt r c vs grid cnt amb = Some (stop, g', cnt', amb') \<longrightarrow> grid ! r ! c = None \<longrightarrow>
      cnt \<le> cnt' \<and> (stop \<longrightarrow> lmt \<le> int cnt') \<and> (\<not> stop \<longrightarrow> g' = grid))"
proof (induction d lmt grid cnt amb and d lmt r c vs grid cnt amb
       arbitrary: stop g' cnt' amb' and stop g' cnt' amb' rule: backtrack_try_values.induct)
  case (1 d lmt grid cnt amb)
  show ?case
  proof (intro impI)
    assume res: "backtrack d lmt grid cnt amb = Some (stop, g', cnt', amb')"
    then have d: "d \<noteq> 0" by (auto simp: backtrack.simps split: if_splits)
    show "cnt \<le> cnt' \<and> (stop \<longrightarrow> lmt \<le> int cnt') \<and> (\<not> stop \<longrightarrow> g' = grid)"
    proof (cases "find_next_cell grid")
      case None
      with res d show ?thesis by (auto simp: backtrack.simps split: if_splits)
    next
      case (Some x2)
      obtain r c cand where x2: "x2 = (r, c, cand)" by (cases x2) auto
      obtain cand' y where sh: "shuffle cand amb = (cand', y)" by (cases "shuffle cand amb") auto
      from Some x2 have emp: "grid ! r ! c = None" using find_next_cell_Some by blast
      from res d Some x2 sh have "try_values (d - 1) lmt r c cand' grid cnt y = Some (stop, g', cnt', amb')"
        by (simp add: backtrack.simps)
      with "1.IH" [OF d Some, of r "(c, cand)" c cand "(cand', y)" cand' y] x2 sh emp
      show ?thesis by simp
    qed
  qed
next
  case (2 d lmt r c grid cnt amb)
  then show ?case by simp
next
  case (3 d lmt r c v vs grid cnt amb)
  show ?case
  proof (intro impI)
    assume res: "try_values d lmt r c (v # vs) grid cnt amb = Some (stop, g', cnt', amb')"
      and emp: "grid ! r ! c = None"
    show "cnt \<le> cnt' \<and> (stop \<longrightarrow> lmt \<le> int cnt') \<and> (\<not> stop \<longrightarrow> g' = grid)"
    proof (cases "is_valid_assignment grid r c v")
      case False
      with res "3.IH"(3) emp show ?thesis by simp
    next
      case True
      with res obtain s1 g1 c1 a1 where
        bt: "backtrack d lmt (set_cell grid r c (Some v)) cnt amb = Some (s1, g1, c1, a1)"
        by (auto split: option.splits)
      from "3.IH"(1) [OF True] bt
      have h1: "cnt \<le> c1" "s1 \<longrightarrow> lmt \<le> int c1" "\<not> s1 \<longrightarrow> g1 = set_cell grid r c (Some v)"
        by auto
      show ?thesis
      proof (cases s1)
        case True
        with res bt \<open>is_valid_assignment grid r c v\<close> h1 show ?thesis by auto
      next
        case False
        with h1 have g1: "g1 = set_cell grid r c (Some v)" by simp
        then have restored: "set_cell g1 r c None = grid" using emp by (simp add: set_cell_restore)
        from res bt False \<open>is_valid_assignment grid r c v\<close>
        have tv: "try_values d lmt r c vs (set_cell g1 r c None) c1 a1 = Some (stop, g', cnt', amb')"
          by simp
        from "3.IH"(2) [OF \<open>is_valid_assignment grid r c v\<close> bt refl refl refl False] tv restored emp
        have "c1 \<le> cnt' \<and> (stop \<longrightarrow> lmt \<le> int cnt') \<and> (\<not> stop \<longrightarrow> g' = grid)"
          by simp
        with h1 show ?thesis by auto
      qed
    qed
  qed
qed

lemma active_cells_bound: "(r, c) \<in> set active_cells \<Longrightarrow> r < 21 \<and> c < 21"
  by (auto simp: active_cells_def BOARD_SIZE_def)

lemma find_next_cell_loop_full:
  "\<forall>(r, c) \<in> set cells. g ! r ! c \<noteq> None \<Longrightarrow> find_next_cell_loop g cells best = best"
  by (induction g cells best rule: find_next_cell_loop.induct) auto

lemma solve_unique_full:
  assumes "\<forall>(r, c) \<in> set active_cells. g ! r ! c \<noteq> None"
  shows "solve_unique g L amb = Some ((True, 1), g, amb)"
proof -
  have "find_next_cell g = None"
    using assms by (simp add: find_next_cell_def find_next_cell_loop_full)
  moreover have "\<not> list_ex (\<lambda>(r, c). g ! r ! c = None) active_cells"
    using assms by (auto simp: list_ex_iff)
  ultimately show ?thesis
    by (simp add: solve_unique_def backtrack.simps)
qed

text \<open>
  Claim C10. When \<open>solve_unique\<close> returns a count strictly below the limit, the grid it
  was given is left as it was on entry: every trial assignment has been undone.
\<close>

theorem solve_unique_frame:
  "solve_unique g L amb = Some ((has, n), g', amb') \<Longrightarrow> int n < L \<Longrightarrow> g' = g"
proof -
  assume a: "solve_unique g L amb = Some ((has, n), g', amb')" and b: "int n < L"
  from a obtain stop where
    bt: "backtrack (Suc (length active_cells)) L g 0 amb = Some (stop, g', n, amb')"
    by (auto simp: solve_unique_def split: option.splits)
  from backtrack_frame_aux(1) [of "Suc (length active_cells)" L g 0 amb stop g' n amb'] bt b
  show "g' = g" by auto
qed

subsection \<open>The random primitives return permutations\<close>

lemma randbelow_less: "0 < n \<Longrightarrow> fst (randbelow n g) < n"
  by (simp add: randbelow_def split: list.splits)

lemma shuffle_from_mset:
  "k < length xs \<Longrightarrow> mset (fst (shuffle_from k xs g)) = mset xs"
proof (induction k arbitrary: xs g)
  case 0
  then show ?case by simp
next
  case (Suc k)
  obtain j g' where rb: "randbelow (Suc (Suc k)) g = (j, g')" by (cases "randbelow (Suc (Suc k)) g")
  have "j < Suc (Suc k)" using randbelow_less [of "Suc (Suc k)" g] rb by simp
  with Suc.prems have j: "j < length xs" by simp
  have "mset (xs[Suc k := xs ! j, j := xs ! Suc k]) = mset xs"
    using mset_swap [of j xs "Suc k"] Suc.prems j by simp
  moreover have "k < length (xs[Suc k := xs ! j, j := xs ! Suc k])" using Suc.prems by simp
  ultimately show ?case using Suc.IH rb by simp
qed

lemma shuffle_mset: "mset (fst (shuffle xs g)) = mset xs"
proof (cases xs)
  case Nil
  then show ?thesis by (simp add: shuffle_def)
next
  case (Cons a list)
  then show ?thesis by (simp add: shuffle_def shuffle_from_mset)
qed

lemma shuffle_set: "set (fst (shuffle xs g)) = set xs"
  using shuffle_mset [of xs g] by (metis set_mset_mset)

lemma shuffle_distinct: "distinct (fst (shuffle xs g)) = distinct xs"
  using shuffle_mset [of xs g] by (metis mset_eq_imp_distinct_iff)

lemma shuffle_length: "length (fst (shuffle xs g)) = length xs"
  using shuffle_mset [of xs g] by (metis size_mset)

lemma sum_list_map_mset: "mset xs = mset ys \<Longrightarrow> sum_list (map f xs) = sum_list (map f (ys :: 'a list))"
  for f :: "'a \<Rightarrow> nat"
proof -
  assume "mset xs = mset ys"
  then have "mset (map f xs) = mset (map f ys)" by simp
  then show ?thesis by (metis sum_mset_sum_list)
qed

subsection \<open>Well-formed grids and the number of empty cells\<close>

lemma wf_grid_nth: "wf_grid g \<Longrightarrow> r < 21 \<Longrightarrow> length (g ! r) = 21"
  by (simp add: wf_grid_def BOARD_SIZE_def list_all_length)

lemma wf_grid_length: "wf_grid g \<Longrightarrow> length g = 21"
  by (simp add: wf_grid_def BOARD_SIZE_def)

lemma wf_grid_set_cell: "wf_grid g \<Longrightarrow> wf_grid (set_cell g r c v)"
  by (cases "r < length g")
     (auto simp: wf_grid_def set_cell_def list_all_length nth_list_update list_update_beyond)

lemma set_cell_nth:
  "r < length g \<Longrightarrow> c < length (g ! r) \<Longrightarrow>
   set_cell g r c v ! r' ! c' = (if r' = r \<and> c' = c then v else g ! r' ! c')"
  by (auto simp: set_cell_def nth_list_update)

lemma set_cell_nth_wf:
  "wf_grid g \<Longrightarrow> r < 21 \<Longrightarrow> c < 21 \<Longrightarrow>
   set_cell g r c v ! r' ! c' = (if r' = r \<and> c' = c then v else g ! r' ! c')"
  by (simp add: set_cell_nth wf_grid_nth wf_grid_length)

lemma copy_grid_id: "copy_grid g = g"
  by (simp add: copy_grid_def)

lemma filter_length_less:
  assumes "\<And>x. x \<in> set xs \<Longrightarrow> Q x \<Longrightarrow> P x" "x \<in> set xs" "P x" "\<not> Q x"
  shows "length (filter Q xs) < length (filter P xs)"
proof -
  have "filter Q xs = filter Q (filter P xs)"
    using assms(1) by (auto intro: filter_cong)
  moreover have "x \<in> set (filter P xs)" using assms by simp
  ultimately show ?thesis
    using length_filter_less [of x "filter P xs" Q] assms(4) by simp
qed

lemma empties_set_cell:
  assumes "wf_grid g" "(r, c) \<in> set active_cells" "g ! r ! c = None"
  shows "empties (set_cell g r c (Some v)) < empties g"
proof -
  have rc: "r < 21" "c < 21" using assms(2) active_cells_bound by auto
  show ?thesis
    unfolding empties_def
  proof (rule filter_length_less [where x = "(r, c)"])
    fix x assume "x \<in> set active_cells" "case x of (r', c') \<Rightarrow> set_cell g r c (Some v) ! r' ! c' = None"
    then show "case x of (r', c') \<Rightarrow> g ! r' ! c' = None"
      using assms(1) rc by (auto simp: set_cell_nth_wf split: if_splits)
  next
    show "(r, c) \<in> set active_cells" by fact
    show "case (r, c) of (r', c') \<Rightarrow> g ! r' ! c' = None" using assms(3) by simp
    show "\<not> (case (r, c) of (r', c') \<Rightarrow> set_cell g r c (Some v) ! r' ! c' = None)"
      using assms(1) rc by (simp add: set_cell_nth_wf)
  qed
qed

lemma empties_le: "empties g \<le> length active_cells"
  by (simp add: empties_def)

subsection \<open>The depth budget suffices\<close>

lemma backtrack_total_aux:
  "(wf_grid grid \<longrightarrow> empties grid < d \<longrightarrow> backtrack d lmt grid cnt amb \<noteq> None)"
  "(wf_grid grid \<longrightarrow> grid ! r ! c = None \<longrightarrow> (r, c) \<in> set active_cells \<longrightarrow> empties grid \<le> d \<longrightarrow>
      try_values d lmt r c vs grid cnt amb \<noteq> None)"
proof (induction d lmt grid cnt amb and d lmt r c vs grid cnt amb rule: backtrack_try_values.induct)
  case (1 d lmt grid cnt amb)
  show ?case
  proof (intro impI)
    assume wf: "wf_grid grid" and e: "empties grid < d"
    then have d: "d \<noteq> 0" by simp
    show "backtrack d lmt grid cnt amb \<noteq> None"
    proof (cases "find_next_cell grid")
      case None
      with d show ?thesis by (auto simp: backtrack.simps)
    next
      case (Some x2)
      obtain r c cand where x2: "x2 = (r, c, cand)" by (cases x2) auto
      obtain cand' y where sh: "shuffle cand amb = (cand', y)" by (cases "shuffle cand amb") auto
      from Some x2 have emp: "grid ! r ! c = None" "(r, c) \<in> set active_cells"
        using find_next_cell_Some by blast+
      from e have "empties grid \<le> d - 1" by simp
      with "1.IH" [OF d Some, of r "(c, cand)" c cand "(cand', y)" cand' y] x2 sh emp wf
      have "try_values (d - 1) lmt r c cand' grid cnt y \<noteq> None" by simp
      with d Some x2 sh show ?thesis by (simp add: backtrack.simps)
    qed
  qed
next
  case (2 d lmt r c grid cnt amb)
  then show ?case by simp
next
  case (3 d lmt r c v vs grid cnt amb)
  show ?case
  proof (intro impI)
    assume wf: "wf_grid grid" and emp: "grid ! r ! c = None" and act: "(r, c) \<in> set active_cells"
      and e: "empties grid \<le> d"
    show "try_values d lmt r c (v # vs) grid cnt amb \<noteq> None"
    proof (cases "is_valid_assignment grid r c v")
      case False
      with "3.IH"(3) wf emp act e show ?thesis by simp
    next
      case True
      have "empties (set_cell grid r c (Some v)) < d"
        using empties_set_cell [OF wf act emp, of v] e by simp
      with "3.IH"(1) [OF True] wf
      obtain s1 g1 c1 a1 where
        bt: "backtrack d lmt (set_cell grid r c (Some v)) cnt amb = Some (s1, g1, c1, a1)"
        by (auto simp: wf_grid_set_cell)
      show ?thesis
      proof (cases s1)
        case True
        with bt \<open>is_valid_assignment grid r c v\<close> show ?thesis by simp
      next
        case False
        with backtrack_frame_aux(1) [of d lmt "set_cell grid r c (Some v)" cnt amb s1 g1 c1 a1] bt
        have "g1 = set_cell grid r c (Some v)" by simp
        then have restored: "set_cell g1 r c None = grid" using emp by (simp add: set_cell_restore)
        note ih = "3.IH"(2) [OF \<open>is_valid_assignment grid r c v\<close> bt refl refl refl False,
            unfolded restored]
        from ih wf emp act e
        have "try_values d lmt r c vs grid c1 a1 \<noteq> None" by simp
        with bt False \<open>is_valid_assignment grid r c v\<close> restored show ?thesis by simp
      qed
    qed
  qed
qed

subsection \<open>The counter does not depend on the order of the candidates\<close>

lemma backtrack_count_aux:
  "(backtrack d lmt grid cnt amb = Some (stop, g', cnt', amb') \<longrightarrow> int cnt < lmt \<longrightarrow>
      int cnt' = min lmt (int cnt + int (count_leaves d grid))
      \<and> (stop \<longleftrightarrow> lmt \<le> int cnt + int (count_leaves d grid)))"
  "(try_values d lmt r c vs grid cnt amb = Some (stop, g', cnt', amb') \<longrightarrow> grid ! r ! c = None \<longrightarrow>
      int cnt < lmt \<longrightarrow>
      int cnt' = min lmt (int cnt + int (sum_list (map (\<lambda>v. if is_valid_assignment grid r c v
                                then count_leaves d (set_cell grid r c (Some v)) else 0) vs)))
      \<and> (stop \<longleftrightarrow> lmt \<le> int cnt + int (sum_list (map (\<lambda>v. if is_valid_assignment grid r c v
                                then count_leaves d (set_cell grid r c (Some v)) else 0) vs))))"
proof (induction d lmt grid cnt amb and d lmt r c vs grid cnt amb
       arbitrary: stop g' cnt' amb' and stop g' cnt' amb' rule: backtrack_try_values.induct)
  case (1 d lmt grid cnt amb)
  show ?case
  proof (intro impI)
    assume res: "backtrack d lmt grid cnt amb = Some (stop, g', cnt', amb')" and lt: "int cnt < lmt"
    then have d: "d \<noteq> 0" by (auto simp: backtrack.simps split: if_splits)
    show "int cnt' = min lmt (int cnt + int (count_leaves d grid))
      \<and> (stop \<longleftrightarrow> lmt \<le> int cnt + int (count_leaves d grid))"
    proof (cases "find_next_cell grid")
      case None
      with res d lt show ?thesis
        by (auto simp: backtrack.simps count_leaves.simps split: if_splits)
    next
      case (Some x2)
      obtain r c cand where x2: "x2 = (r, c, cand)" by (cases x2) auto
      obtain cand' y where sh: "shuffle cand amb = (cand', y)" by (cases "shuffle cand amb") auto
      from Some x2 have emp: "grid ! r ! c = None" using find_next_cell_Some by blast
      from res d Some x2 sh have tv: "try_values (d - 1) lmt r c cand' grid cnt y = Some (stop, g', cnt', amb')"
        by (simp add: backtrack.simps)
      have "mset cand' = mset cand" using shuffle_mset [of cand amb] sh by simp
      then have sums: "sum_list (map (\<lambda>v. if is_valid_assignment grid r c v
                                then count_leaves (d - 1) (set_cell grid r c (Some v)) else 0) cand')
                 = count_leaves d grid"
        using d Some x2 sum_list_map_mset [of cand' cand] by (simp add: count_leaves.simps [of d])
      from "1.IH" [OF d Some, of r "(c, cand)" c cand "(cand', y)" cand' y] x2 sh emp tv lt
      show ?thesis unfolding sums [symmetric] by simp
    qed
  qed
next
  case (2 d lmt r c grid cnt amb)
  then show ?case by auto
next
  case (3 d lmt r c v vs grid cnt amb)
  let ?f = "\<lambda>v. if is_valid_assignment grid r c v then count_leaves d (set_cell grid r c (Some v)) else 0"
  show ?case
  proof (intro impI)
    assume res: "try_values d lmt r c (v # vs) grid cnt amb = Some (stop, g', cnt', amb')"
      and emp: "grid ! r ! c = None" and lt: "int cnt < lmt"
    show "int cnt' = min lmt (int cnt + int (sum_list (map ?f (v # vs))))
      \<and> (stop \<longleftrightarrow> lmt \<le> int cnt + int (sum_list (map ?f (v # vs))))"
    proof (cases "is_valid_assignment grid r c v")
      case False
      with res "3.IH"(3) emp lt show ?thesis by simp
    next
      case True
      with res obtain s1 g1 c1 a1 where
        bt: "backtrack d lmt (set_cell grid r c (Some v)) cnt amb = Some (s1, g1, c1, a1)"
        by (auto split: option.splits)
      from "3.IH"(1) [OF True] bt lt
      have h1: "int c1 = min lmt (int cnt + int (count_leaves d (set_cell grid r c (Some v))))"
        "s1 \<longleftrightarrow> lmt \<le> int cnt + int (count_leaves d (set_cell grid r c (Some v)))"
        by auto
      show ?thesis
      proof (cases s1)
        case True
        with res bt \<open>is_valid_assignment grid r c v\<close> have "stop" "cnt' = c1" by auto
        with h1 True \<open>is_valid_assignment grid r c v\<close> show ?thesis by auto
      next
        case False
        with backtrack_frame_aux(1) [of d lmt "set_cell grid r c (Some v)" cnt amb s1 g1 c1 a1] bt
        have "g1 = set_cell grid r c (Some v)" by simp
        then have restored: "set_cell g1 r c None = grid" using emp by (simp add: set_cell_restore)
        from h1 False have c1: "int c1 = int cnt + int (count_leaves d (set_cell grid r c (Some v)))"
          "int c1 < lmt" by auto
        from res bt False \<open>is_valid_assignment grid r c v\<close> restored
        have tv: "try_values d lmt r c vs grid c1 a1 = Some (stop, g', cnt', amb')"
          by simp
        note ih = "3.IH"(2) [OF \<open>is_valid_assignment grid r c v\<close> bt refl refl refl False,
            of stop g' cnt' amb', unfolded restored]
        from ih tv emp c1(2)
        have "int cnt' = min lmt (int c1 + int (sum_list (map ?f vs)))
               \<and> (stop \<longleftrightarrow> lmt \<le> int c1 + int (sum_list (map ?f vs)))"
          by simp
        with c1 \<open>is_valid_assignment grid r c v\<close> show ?thesis by (simp add: add.assoc)
      qed
    qed
  qed
qed

lemma solve_unique_result:
  assumes "wf_grid g" "0 < L"
  shows "\<exists>g' amb'. solve_unique g L amb
           = Some ((0 < solution_count g, nat (min L (int (solution_count g)))), g', amb')"
proof -
  have "empties g < Suc (length active_cells)" using empties_le [of g] by simp
  with backtrack_total_aux(1) [of g "Suc (length active_cells)" L 0 amb] assms(1)
  obtain stop g' n amb' where
    bt: "backtrack (Suc (length active_cells)) L g 0 amb = Some (stop, g', n, amb')"
    by (cases "backtrack (Suc (length active_cells)) L g 0 amb") auto
  from backtrack_count_aux(1) [of "Suc (length active_cells)" L g 0 amb stop g' n amb'] bt assms(2)
  have n: "int n = min L (int (solution_count g))"
    by (simp add: solution_count_def)
  then have "n = nat (min L (int (solution_count g)))" by simp
  moreover from n assms(2) have "0 < n \<longleftrightarrow> 0 < solution_count g" by auto
  ultimately show ?thesis using bt by (simp add: solve_unique_def)
qed

lemma solve_unique_two:
  assumes "wf_grid g"
  shows "\<exists>g' amb'. solve_unique g 2 amb = Some ((0 < solution_count g, min 2 (solution_count g)), g', amb')"
proof -
  have "nat (min 2 (int (solution_count g))) = min 2 (solution_count g)" by simp
  with solve_unique_result [OF assms, of 2 amb] show ?thesis by simp
qed

subsection \<open>One pass of the digger\<close>

lemma time_time_cases: "\<exists>t clk'. time_time clk = (t, clk')"
  by (cases "time_time clk") auto

lemma set_cell_None_neq:
  assumes "wf_grid g" "r < 21" "c < 21" "g ! r ! c = Some v"
  shows "set_cell g r c None \<noteq> g"
proof
  assume "set_cell g r c None = g"
  then have "set_cell g r c None ! r ! c = g ! r ! c" by simp
  with assms show False by (simp add: set_cell_nth_wf)
qed

lemma set_cell_undo:
  "g ! r ! c = Some v \<Longrightarrow> set_cell (set_cell g r c None) r c (Some v) = g"
  by (simp add: set_cell_twice set_cell_same)

lemma solve_unique_has:
  "solve_unique g L amb = Some ((has, n), g', amb') \<Longrightarrow> has \<longleftrightarrow> 0 < n"
  by (auto simp: solve_unique_def split: option.splits)

lemma dig_body_break:
  "int (count_clues actives puzzle) \<le> target \<Longrightarrow>
   dig_body target tmo actives (r, c) (puzzle, amb, clk) = Some (True, puzzle, amb, clk)"
  by (simp add: dig_body_def)

lemma dig_body_skip:
  "\<not> int (count_clues actives puzzle) \<le> target \<Longrightarrow> puzzle ! r ! c = None \<Longrightarrow>
   dig_body target tmo actives (r, c) (puzzle, amb, clk) = Some (False, puzzle, amb, clk)"
  by (simp add: dig_body_def)

lemma dig_body_check:
  assumes "\<not> int (count_clues actives puzzle) \<le> target" "puzzle ! r ! c = Some v"
    and "solve_unique (set_cell puzzle r c None) 2 amb = Some ((has, nsol), used, amb')"
  shows "dig_body target tmo actives (r, c) (puzzle, amb, clk)
         = Some (False,
             if fst (time_time (snd (time_time clk))) - fst (time_time clk) > tmo \<or> nsol = 0 \<or> 1 < nsol
             then puzzle else set_cell puzzle r c None,
             amb', snd (time_time (snd (time_time clk))))"
proof -
  obtain t0 clk1 where t0: "time_time clk = (t0, clk1)" by (cases "time_time clk") auto
  obtain t1 clk2 where t1: "time_time clk1 = (t1, clk2)" by (cases "time_time clk1") auto
  have h: "has \<longleftrightarrow> 0 < nsol" using assms(3) by (rule solve_unique_has)
  show ?thesis
    using assms t0 t1 h
    by (auto simp: dig_body_def copy_grid_id set_cell_undo Let_def)
qed

lemma active_cells_mem:
  "(r, c) \<in> set active_cells \<longleftrightarrow> r < 21 \<and> c < 21 \<and> is_active_cell r c"
  by (auto simp: active_cells_def BOARD_SIZE_def)

lemma is_active_cell_iff:
  "is_active_cell r c \<longleftrightarrow> boards_covering_cell r c \<noteq> []"
  by (simp add: is_active_cell_def boards_covering_cell_def filter_empty_conv case_prod_beta)

text \<open>
  Claim C5. One pass of the loop of the digger on a well-formed puzzle and an active
  cell. When the clue count is at most the target the loop is left and nothing changes.
  Otherwise, when the cell holds a value, the cell is cleared, \<open>solve_unique\<close> runs with
  limit 2 on a copy between two readings of the clock, and the pass ends with the puzzle
  exactly as before if and only if the readings differ by more than the budget, or the
  check counted zero solutions, or it counted more than one; in the other case the pass
  ends with the cell cleared. When the cell is already empty the pass changes nothing.
\<close>

theorem dig_body_spec:
  assumes "wf_grid puzzle" "(r, c) \<in> set active_cells"
  shows
   "(int (count_clues actives puzzle) \<le> target \<longrightarrow>
       dig_body target tmo actives (r, c) (puzzle, amb, clk) = Some (True, puzzle, amb, clk))
  \<and> (\<not> int (count_clues actives puzzle) \<le> target \<longrightarrow> puzzle ! r ! c \<noteq> None \<longrightarrow>
       (\<exists>has nsol used amb' clk' puzzle'.
           solve_unique (copy_grid (set_cell puzzle r c None)) 2 amb = Some ((has, nsol), used, amb')
         \<and> dig_body target tmo actives (r, c) (puzzle, amb, clk) = Some (False, puzzle', amb', clk')
         \<and> (puzzle' = puzzle \<or> puzzle' = set_cell puzzle r c None)
         \<and> set_cell puzzle r c None \<noteq> puzzle
         \<and> (puzzle' = puzzle \<longleftrightarrow>
              fst (time_time (snd (time_time clk))) - fst (time_time clk) > tmo \<or> nsol = 0 \<or> 1 < nsol)))
  \<and> (\<not> int (count_clues actives puzzle) \<le> target \<longrightarrow> puzzle ! r ! c = None \<longrightarrow>
       dig_body target tmo actives (r, c) (puzzle, amb, clk) = Some (False, puzzle, amb, clk))"
proof (intro conjI impI)
  assume "int (count_clues actives puzzle) \<le> target"
  then show "dig_body target tmo actives (r, c) (puzzle, amb, clk) = Some (True, puzzle, amb, clk)"
    by (rule dig_body_break)
next
  assume "\<not> int (count_clues actives puzzle) \<le> target" "puzzle ! r ! c = None"
  then show "dig_body target tmo actives (r, c) (puzzle, amb, clk) = Some (False, puzzle, amb, clk)"
    by (rule dig_body_skip)
next
  assume above: "\<not> int (count_clues actives puzzle) \<le> target" and filled: "puzzle ! r ! c \<noteq> None"
  then obtain v where v: "puzzle ! r ! c = Some v" by auto
  have rc: "r < 21" "c < 21" using assms(2) active_cells_bound by auto
  let ?p1 = "set_cell puzzle r c None"
  have "wf_grid ?p1" using assms(1) by (rule wf_grid_set_cell)
  from solve_unique_two [OF this, of amb]
  obtain used amb' where
    su: "solve_unique ?p1 2 amb = Some ((0 < solution_count ?p1, min 2 (solution_count ?p1)), used, amb')"
    by blast
  let ?nsol = "min 2 (solution_count ?p1)"
  let ?restore = "fst (time_time (snd (time_time clk))) - fst (time_time clk) > tmo \<or> ?nsol = 0 \<or> 1 < ?nsol"
  let ?p' = "if ?restore then puzzle else ?p1"
  have neq: "?p1 \<noteq> puzzle" using assms(1) rc v by (rule set_cell_None_neq)
  have body: "dig_body target tmo actives (r, c) (puzzle, amb, clk)
         = Some (False, ?p', amb', snd (time_time (snd (time_time clk))))"
    using dig_body_check [OF above v su] .
  have "solve_unique (copy_grid ?p1) 2 amb = Some ((0 < solution_count ?p1, ?nsol), used, amb')
         \<and> dig_body target tmo actives (r, c) (puzzle, amb, clk)
              = Some (False, ?p', amb', snd (time_time (snd (time_time clk))))
         \<and> (?p' = puzzle \<or> ?p' = ?p1)
         \<and> ?p1 \<noteq> puzzle
         \<and> (?p' = puzzle \<longleftrightarrow> ?restore)"
    using su body neq by (simp add: copy_grid_id)
  then show "\<exists>has nsol used amb' clk' puzzle'.
           solve_unique (copy_grid (set_cell puzzle r c None)) 2 amb = Some ((has, nsol), used, amb')
         \<and> dig_body target tmo actives (r, c) (puzzle, amb, clk) = Some (False, puzzle', amb', clk')
         \<and> (puzzle' = puzzle \<or> puzzle' = set_cell puzzle r c None)
         \<and> set_cell puzzle r c None \<noteq> puzzle
         \<and> (puzzle' = puzzle \<longleftrightarrow>
              fst (time_time (snd (time_time clk))) - fst (time_time clk) > tmo \<or> nsol = 0 \<or> 1 < nsol)"
    by blast
qed

theorem dig_body_spec_witness:
  "wf_grid (replicate 21 (replicate 21 (Some 1)))
   \<and> (0, 0) \<in> set active_cells
   \<and> \<not> int (count_clues [(0, 0)] (replicate 21 (replicate 21 (Some 1)))) \<le> 0
   \<and> replicate 21 (replicate 21 (Some (1::nat))) ! 0 ! 0 \<noteq> None
   \<and> (\<exists>has nsol used amb' clk' puzzle'.
           solve_unique (copy_grid (set_cell (replicate 21 (replicate 21 (Some 1))) 0 0 None)) 2 [5, 7]
             = Some ((has, nsol), used, amb')
         \<and> dig_body 0 10 [(0, 0)] (0, 0) (replicate 21 (replicate 21 (Some 1)), [5, 7], [0, 3])
             = Some (False, puzzle', amb', clk')
         \<and> (puzzle' = replicate 21 (replicate 21 (Some 1))
              \<or> puzzle' = set_cell (replicate 21 (replicate 21 (Some 1))) 0 0 None)
         \<and> set_cell (replicate 21 (replicate 21 (Some 1))) 0 0 None \<noteq> replicate 21 (replicate 21 (Some 1))
         \<and> (puzzle' = replicate 21 (replicate 21 (Some 1)) \<longleftrightarrow>
              fst (time_time (snd (time_time [0, 3]))) - fst (time_time [0, 3]) > 10 \<or> nsol = 0 \<or> 1 < nsol))"
proof -
  let ?G = "replicate 21 (replicate 21 (Some (1::nat)))"
  have wf: "wf_grid ?G" by (simp add: wf_grid_def BOARD_SIZE_def list_all_length)
  have act: "(0, 0) \<in> set active_cells"
    by (simp add: active_cells_mem is_active_cell_iff boards_covering_cell_eq)
  have above: "\<not> int (count_clues [(0, 0)] ?G) \<le> 0" by (simp add: count_clues_def)
  have filled: "?G ! 0 ! 0 \<noteq> None" by simp
  from dig_body_spec [OF wf act, of "[(0, 0)]" 0 10 "[5, 7]" "[0, 3]"] above filled
  show ?thesis using wf act by blast
qed

subsection \<open>The loop of the digger\<close>

lemma set_cell_None_sub:
  "set_cell g r c None ! r' ! c' = None \<or> set_cell g r c None ! r' ! c' = g ! r' ! c'"
proof (cases "r < length g \<and> c < length (g ! r)")
  case True
  then show ?thesis by (simp add: set_cell_nth)
next
  case False
  then have "set_cell g r c None = g"
    by (auto simp: set_cell_def list_update_beyond not_less)
  then show ?thesis by simp
qed

lemma filter_remove_one:
  "distinct xs \<Longrightarrow> length (filter P xs) \<le> Suc (length (filter (\<lambda>x. P x \<and> x \<noteq> a) xs))"
proof (induction xs)
  case Nil
  then show ?case by simp
next
  case (Cons x xs)
  show ?case
  proof (cases "x = a")
    case True
    with Cons.prems have "a \<notin> set xs" by simp
    then have "filter (\<lambda>x. P x \<and> x \<noteq> a) xs = filter P xs"
      by (auto intro: filter_cong)
    with True show ?thesis by simp
  next
    case False
    with Cons show ?thesis by simp
  qed
qed

lemma filter_conj_le: "length (filter (\<lambda>x. P x \<and> Q x) xs) \<le> length (filter P xs)"
  by (induction xs) auto

lemma count_clues_clear:
  assumes "wf_grid g" "r < 21" "c < 21" "distinct actives"
  shows "count_clues actives (set_cell g r c None) \<le> count_clues actives g"
    and "count_clues actives g \<le> Suc (count_clues actives (set_cell g r c None))"
proof -
  have eq: "filter (\<lambda>(r', c'). set_cell g r c None ! r' ! c' \<noteq> None) actives
          = filter (\<lambda>x. (case x of (r', c') \<Rightarrow> g ! r' ! c' \<noteq> None) \<and> x \<noteq> (r, c)) actives"
    using assms(1-3) by (auto intro!: filter_cong simp: set_cell_nth_wf)
  show "count_clues actives (set_cell g r c None) \<le> count_clues actives g"
    unfolding count_clues_def eq by (rule filter_conj_le)
  show "count_clues actives g \<le> Suc (count_clues actives (set_cell g r c None))"
    unfolding count_clues_def eq using assms(4) by (rule filter_remove_one)
qed

lemma dig_body_inv:
  assumes "wf_grid p" "solution_count p = 1" "(r, c) \<in> set active_cells" "distinct actives"
  shows "\<exists>brk p' amb' clk'.
           dig_body T tmo actives (r, c) (p, amb, clk) = Some (brk, p', amb', clk')
         \<and> wf_grid p' \<and> solution_count p' = 1
         \<and> (\<forall>r' c'. p' ! r' ! c' = None \<or> p' ! r' ! c' = p ! r' ! c')
         \<and> count_clues actives p' \<le> count_clues actives p
         \<and> min T (int (count_clues actives p)) \<le> int (count_clues actives p')"
proof (cases "int (count_clues actives p) \<le> T")
  case True
  then show ?thesis using assms(1,2) by (auto simp: dig_body_break)
next
  case above: False
  show ?thesis
  proof (cases "p ! r ! c")
    case None
    with above show ?thesis using assms(1,2) by (auto simp: dig_body_skip)
  next
    case (Some v)
    have rc: "r < 21" "c < 21" using assms(3) active_cells_bound by auto
    let ?p1 = "set_cell p r c None"
    have wf1: "wf_grid ?p1" using assms(1) by (rule wf_grid_set_cell)
    from solve_unique_two [OF wf1, of amb]
    obtain used amb' where
      su: "solve_unique ?p1 2 amb = Some ((0 < solution_count ?p1, min 2 (solution_count ?p1)), used, amb')"
      by blast
    let ?restore = "fst (time_time (snd (time_time clk))) - fst (time_time clk) > tmo
                    \<or> min 2 (solution_count ?p1) = 0 \<or> 1 < min 2 (solution_count ?p1)"
    note body = dig_body_check [OF above Some su, of tmo clk]
    show ?thesis
    proof (cases ?restore)
      case True
      with body have "dig_body T tmo actives (r, c) (p, amb, clk)
                        = Some (False, p, amb', snd (time_time (snd (time_time clk))))"
        by simp
      then show ?thesis using assms(1,2) by auto
    next
      case False
      then have one: "solution_count ?p1 = 1" by (auto simp: min_def split: if_splits)
      from False body have b: "dig_body T tmo actives (r, c) (p, amb, clk)
                        = Some (False, ?p1, amb', snd (time_time (snd (time_time clk))))"
        by simp
      have le: "count_clues actives ?p1 \<le> count_clues actives p"
        using assms(1) rc assms(4) by (rule count_clues_clear(1))
      have "count_clues actives p \<le> Suc (count_clues actives ?p1)"
        using assms(1) rc assms(4) by (rule count_clues_clear(2))
      with above have "T \<le> int (count_clues actives ?p1)" by simp
      then have lower: "min T (int (count_clues actives p)) \<le> int (count_clues actives ?p1)" by simp
      show ?thesis using b wf1 one le lower set_cell_None_sub [of p r c] by auto
    qed
  qed
qed

lemma dig_loop_inv:
  assumes "wf_grid p" "solution_count p = 1" "set cells \<subseteq> set active_cells" "distinct actives"
  shows "\<exists>p' amb' clk'.
           dig_loop T tmo actives cells (p, amb, clk) = Some (p', amb', clk')
         \<and> wf_grid p' \<and> solution_count p' = 1
         \<and> (\<forall>r' c'. p' ! r' ! c' = None \<or> p' ! r' ! c' = p ! r' ! c')
         \<and> count_clues actives p' \<le> count_clues actives p
         \<and> min T (int (count_clues actives p)) \<le> int (count_clues actives p')"
  using assms
proof (induction cells arbitrary: p amb clk)
  case Nil
  then show ?case by simp
next
  case (Cons cell cells)
  obtain r c where cell: "cell = (r, c)" by (cases cell)
  with Cons.prems have act: "(r, c) \<in> set active_cells" by simp
  from dig_body_inv [OF Cons.prems(1,2) act Cons.prems(4), of T tmo amb clk]
  obtain brk p1 amb1 clk1 where
    body: "dig_body T tmo actives (r, c) (p, amb, clk) = Some (brk, p1, amb1, clk1)"
    and inv1: "wf_grid p1" "solution_count p1 = 1"
      "\<forall>r' c'. p1 ! r' ! c' = None \<or> p1 ! r' ! c' = p ! r' ! c'"
      "count_clues actives p1 \<le> count_clues actives p"
      "min T (int (count_clues actives p)) \<le> int (count_clues actives p1)"
    by blast
  show ?case
  proof (cases brk)
    case True
    with body cell inv1 show ?thesis by simp
  next
    case False
    from Cons.prems have sub: "set cells \<subseteq> set active_cells" by simp
    from Cons.IH [OF inv1(1,2) sub Cons.prems(4), of amb1 clk1]
    obtain p' amb' clk' where
      rest: "dig_loop T tmo actives cells (p1, amb1, clk1) = Some (p', amb', clk')"
      and inv': "wf_grid p'" "solution_count p' = 1"
        "\<forall>r' c'. p' ! r' ! c' = None \<or> p' ! r' ! c' = p1 ! r' ! c'"
        "count_clues actives p' \<le> count_clues actives p1"
        "min T (int (count_clues actives p1)) \<le> int (count_clues actives p')"
      by blast
    have "\<forall>r' c'. p' ! r' ! c' = None \<or> p' ! r' ! c' = p ! r' ! c'"
      using inv1(3) inv'(3) by metis
    moreover have "count_clues actives p' \<le> count_clues actives p"
      using inv1(4) inv'(4) by simp
    moreover have "min T (int (count_clues actives p)) \<le> int (count_clues actives p')"
      using inv1(5) inv'(5) by (simp add: min_def split: if_splits)
    ultimately show ?thesis using body cell False rest inv'(1,2) by simp
  qed
qed

lemma distinct_active_cells: "distinct active_cells"
proof -
  have "distinct (concat (map (\<lambda>r. map (Pair r) (filter (\<lambda>c. is_active_cell r c) [0..<BOARD_SIZE]))
                              [0..<BOARD_SIZE]))"
    using distinct_concat_pairs [of "[0..<BOARD_SIZE]" "\<lambda>r. filter (\<lambda>c. is_active_cell r c) [0..<BOARD_SIZE]"]
    by simp
  then show ?thesis by (simp add: active_cells_def)
qed

lemma count_clues_perm: "mset xs = mset ys \<Longrightarrow> count_clues xs g = count_clues ys g"
proof -
  assume "mset xs = mset ys"
  then have "mset (filter (\<lambda>(r, c). g ! r ! c \<noteq> None) xs) = mset (filter (\<lambda>(r, c). g ! r ! c \<noteq> None) ys)"
    by simp
  then show ?thesis unfolding count_clues_def by (metis size_mset)
qed

lemma dig_holes_to_target_inv:
  assumes "wf_grid solved" "solution_count solved = 1"
  shows "\<exists>p' e'.
           dig_holes_to_target solved T tmo e = Some (p', e')
         \<and> wf_grid p' \<and> solution_count p' = 1
         \<and> (\<forall>r' c'. p' ! r' ! c' = None \<or> p' ! r' ! c' = solved ! r' ! c')
         \<and> count_clues active_cells p' \<le> count_clues active_cells solved
         \<and> min T (int (count_clues active_cells solved)) \<le> int (count_clues active_cells p')"
proof -
  obtain g amb clk where e: "e = (g, amb, clk)" by (cases e)
  obtain actives g' where sh: "shuffle active_cells g = (actives, g')" by (cases "shuffle active_cells g")
  have ms: "mset actives = mset active_cells" using shuffle_mset [of active_cells g] sh by simp
  have dist: "distinct actives"
    using mset_eq_imp_distinct_iff [OF ms] distinct_active_cells by simp
  have sub: "set actives \<subseteq> set active_cells" using mset_eq_setD [OF ms] by simp
  from dig_loop_inv [OF assms sub dist, of T tmo amb clk]
  obtain p' amb' clk' where
    loop: "dig_loop T tmo actives actives (solved, amb, clk) = Some (p', amb', clk')"
    and inv: "wf_grid p'" "solution_count p' = 1"
      "\<forall>r' c'. p' ! r' ! c' = None \<or> p' ! r' ! c' = solved ! r' ! c'"
      "count_clues actives p' \<le> count_clues actives solved"
      "min T (int (count_clues actives solved)) \<le> int (count_clues actives p')"
    by blast
  have cc1: "count_clues actives p' = count_clues active_cells p'"
    using ms by (rule count_clues_perm)
  have cc2: "count_clues actives solved = count_clues active_cells solved"
    using ms by (rule count_clues_perm)
  have res: "dig_holes_to_target solved T tmo e = Some (p', g', amb', clk')"
    unfolding dig_holes_to_target_def e using sh loop by (simp add: copy_grid_id)
  show ?thesis
    using res inv(1,2,3) inv(4,5) [unfolded cc1 cc2] by blast
qed

subsection \<open>Full grids\<close>

lemma solution_count_full:
  assumes "\<forall>(r, c) \<in> set active_cells. g ! r ! c \<noteq> None"
  shows "solution_count g = 1"
proof -
  have "find_next_cell g = None"
    using assms by (simp add: find_next_cell_def find_next_cell_loop_full)
  moreover have "\<not> list_ex (\<lambda>(r, c). g ! r ! c = None) active_cells"
    using assms by (auto simp: list_ex_iff)
  ultimately show ?thesis
    by (simp add: solution_count_def count_leaves.simps)
qed

lemma count_clues_full:
  assumes "\<forall>(r, c) \<in> set active_cells. g ! r ! c \<noteq> None"
  shows "count_clues active_cells g = length active_cells"
proof -
  have "filter (\<lambda>(r, c). g ! r ! c \<noteq> None) active_cells = active_cells"
    using assms by (auto simp: filter_id_conv)
  then show ?thesis by (simp add: count_clues_def)
qed

lemma length_active_cells: "length active_cells = 369"
  by code_simp

subsection \<open>The attempts of the entry point\<close>

lemma dig_attempts_inv:
  assumes "wf_grid solved" "solution_count solved = 1" "base \<le> target"
  shows "\<exists>p e'.
           dig_attempts n solved base target tmo adapt e = Some ((p, solved), e')
         \<and> wf_grid p \<and> solution_count p = 1
         \<and> (\<forall>r' c'. p ! r' ! c' = None \<or> p ! r' ! c' = solved ! r' ! c')
         \<and> count_clues active_cells p \<le> count_clues active_cells solved
         \<and> min base (int (count_clues active_cells solved)) \<le> int (count_clues active_cells p)"
proof (cases n)
  case 0
  from dig_holes_to_target_inv [OF assms(1,2), of "max base 210" tmo e]
  obtain p e' where
    dig: "dig_holes_to_target solved (max base 210) tmo e = Some (p, e')"
    and inv: "wf_grid p" "solution_count p = 1"
      "\<forall>r' c'. p ! r' ! c' = None \<or> p ! r' ! c' = solved ! r' ! c'"
      "count_clues active_cells p \<le> count_clues active_cells solved"
      "min (max base 210) (int (count_clues active_cells solved)) \<le> int (count_clues active_cells p)"
    by blast
  from inv(5) have "min base (int (count_clues active_cells solved)) \<le> int (count_clues active_cells p)"
    by (simp add: min_def max_def split: if_splits)
  moreover have "dig_attempts n solved base target tmo adapt e = Some ((p, solved), e')"
    using 0 dig by simp
  ultimately show ?thesis using inv(1-4) by blast
next
  case (Suc m)
  from dig_holes_to_target_inv [OF assms(1,2), of target tmo e]
  obtain p e1 where
    dig: "dig_holes_to_target solved target tmo e = Some (p, e1)"
    and inv: "wf_grid p" "solution_count p = 1"
      "\<forall>r' c'. p ! r' ! c' = None \<or> p ! r' ! c' = solved ! r' ! c'"
      "count_clues active_cells p \<le> count_clues active_cells solved"
      "min target (int (count_clues active_cells solved)) \<le> int (count_clues active_cells p)"
    by blast
  obtain g amb clk where e1: "e1 = (g, amb, clk)" by (cases e1)
  from solve_unique_two [OF inv(1), of amb] inv(2)
  obtain used amb' where su: "solve_unique p 2 amb = Some ((True, 1), used, amb')"
    by auto
  have res: "dig_attempts n solved base target tmo adapt e = Some ((p, solved), g, amb', clk)"
    using Suc dig e1 su by (simp add: copy_grid_id)
  from inv(5) assms(3)
  have "min base (int (count_clues active_cells solved)) \<le> int (count_clues active_cells p)"
    by (simp add: min_def split: if_splits)
  with res inv(1-4) show ?thesis by blast
qed

subsection \<open>Embedding a board into the canvas\<close>

lemma embed_row_fold:
  assumes "wf_grid g" "R < 21" "c0 + n \<le> 21"
  shows "wf_grid (fold (\<lambda>c g. set_cell g R (c0 + c) (Some (row ! c))) [0..<n] g)
       \<and> (\<forall>r < 21. \<forall>c < 21. fold (\<lambda>c g. set_cell g R (c0 + c) (Some (row ! c))) [0..<n] g ! r ! c
             = (if r = R \<and> c0 \<le> c \<and> c < c0 + n then Some (row ! (c - c0)) else g ! r ! c))"
  using assms(3)
proof (induction n)
  case 0
  then show ?case using assms(1) by auto
next
  case (Suc n)
  let ?g = "fold (\<lambda>c g. set_cell g R (c0 + c) (Some (row ! c))) [0..<n] g"
  from Suc have ih: "wf_grid ?g"
    "\<forall>r < 21. \<forall>c < 21. ?g ! r ! c = (if r = R \<and> c0 \<le> c \<and> c < c0 + n then Some (row ! (c - c0)) else g ! r ! c)"
    by simp_all
  have step: "fold (\<lambda>c g. set_cell g R (c0 + c) (Some (row ! c))) [0..<Suc n] g
              = set_cell ?g R (c0 + n) (Some (row ! n))"
    by simp
  have cn: "c0 + n < 21" using Suc.prems by simp
  show ?case
    unfolding step
  proof (intro conjI allI impI)
    show "wf_grid (set_cell ?g R (c0 + n) (Some (row ! n)))" using ih(1) by (rule wf_grid_set_cell)
  next
    fix r c :: nat assume rc: "r < 21" "c < 21"
    show "set_cell ?g R (c0 + n) (Some (row ! n)) ! r ! c
          = (if r = R \<and> c0 \<le> c \<and> c < c0 + Suc n then Some (row ! (c - c0)) else g ! r ! c)"
      using ih(2) rc assms(2) cn by (auto simp: set_cell_nth_wf [OF ih(1)])
  qed
qed

lemma embed_fold:
  assumes "wf_grid g" "r0 + n \<le> 21" "c0 + 9 \<le> 21"
  shows "wf_grid (fold (\<lambda>r g. fold (\<lambda>c g. set_cell g (r0 + r) (c0 + c) (Some (b ! r ! c))) [0..<9] g) [0..<n] g)
       \<and> (\<forall>r < 21. \<forall>c < 21.
             fold (\<lambda>r g. fold (\<lambda>c g. set_cell g (r0 + r) (c0 + c) (Some (b ! r ! c))) [0..<9] g) [0..<n] g ! r ! c
             = (if r0 \<le> r \<and> r < r0 + n \<and> c0 \<le> c \<and> c < c0 + 9 then Some (b ! (r - r0) ! (c - c0)) else g ! r ! c))"
  using assms(2)
proof (induction n)
  case 0
  then show ?case using assms(1) by auto
next
  case (Suc n)
  let ?g = "fold (\<lambda>r g. fold (\<lambda>c g. set_cell g (r0 + r) (c0 + c) (Some (b ! r ! c))) [0..<9] g) [0..<n] g"
  from Suc have ih: "wf_grid ?g"
    "\<forall>r < 21. \<forall>c < 21. ?g ! r ! c
        = (if r0 \<le> r \<and> r < r0 + n \<and> c0 \<le> c \<and> c < c0 + 9 then Some (b ! (r - r0) ! (c - c0)) else g ! r ! c)"
    by simp_all
  have rn: "r0 + n < 21" using Suc.prems by simp
  note row = embed_row_fold [OF ih(1) rn assms(3), of "b ! n"]
  have step: "fold (\<lambda>r g. fold (\<lambda>c g. set_cell g (r0 + r) (c0 + c) (Some (b ! r ! c))) [0..<9] g) [0..<Suc n] g
              = fold (\<lambda>c g. set_cell g (r0 + n) (c0 + c) (Some (b ! n ! c))) [0..<9] ?g"
    by simp
  show ?case
    unfolding step
  proof (intro conjI allI impI)
    show "wf_grid (fold (\<lambda>c g. set_cell g (r0 + n) (c0 + c) (Some (b ! n ! c))) [0..<9] ?g)"
      using row by simp
  next
    fix r c :: nat assume rc: "r < 21" "c < 21"
    have "fold (\<lambda>c g. set_cell g (r0 + n) (c0 + c) (Some (b ! n ! c))) [0..<9] ?g ! r ! c
          = (if r = r0 + n \<and> c0 \<le> c \<and> c < c0 + 9 then Some (b ! n ! (c - c0)) else ?g ! r ! c)"
      using row rc by simp
    also have "\<dots> = (if r0 \<le> r \<and> r < r0 + Suc n \<and> c0 \<le> c \<and> c < c0 + 9
                      then Some (b ! (r - r0) ! (c - c0)) else g ! r ! c)"
      using ih(2) rc by auto
    finally show "fold (\<lambda>c g. set_cell g (r0 + n) (c0 + c) (Some (b ! n ! c))) [0..<9] ?g ! r ! c
          = (if r0 \<le> r \<and> r < r0 + Suc n \<and> c0 \<le> c \<and> c < c0 + 9
                      then Some (b ! (r - r0) ! (c - c0)) else g ! r ! c)" .
  qed
qed

lemma embed_wf: "wf_grid g \<Longrightarrow> r0 + 9 \<le> 21 \<Longrightarrow> c0 + 9 \<le> 21 \<Longrightarrow> wf_grid (embed b g r0 c0)"
  using embed_fold [of g r0 9 c0 b] by (simp add: embed_def)

lemma embed_nth:
  "wf_grid g \<Longrightarrow> r0 + 9 \<le> 21 \<Longrightarrow> c0 + 9 \<le> 21 \<Longrightarrow> r < 21 \<Longrightarrow> c < 21 \<Longrightarrow>
   embed b g r0 c0 ! r ! c = (if in_board r c r0 c0 then Some (b ! (r - r0) ! (c - c0)) else g ! r ! c)"
  using embed_fold [of g r0 9 c0 b] by (simp add: embed_def in_board_def)

lemma wf_empty_samurai_grid: "wf_grid empty_samurai_grid"
  by (simp add: wf_grid_def empty_samurai_grid_def BOARD_SIZE_def list_all_length)

subsection \<open>A grid with one empty cell\<close>

lemma count_leaves_full:
  assumes "\<forall>(r, c) \<in> set active_cells. g ! r ! c \<noteq> None" "d \<noteq> 0"
  shows "count_leaves d g = 1"
proof -
  have "find_next_cell g = None"
    using assms(1) by (simp add: find_next_cell_def find_next_cell_loop_full)
  moreover have "\<not> list_ex (\<lambda>(r, c). g ! r ! c = None) active_cells"
    using assms(1) by (auto simp: list_ex_iff)
  ultimately show ?thesis using assms(2) by (simp add: count_leaves.simps)
qed

lemma active_cells_head: "\<exists>xs. active_cells = (0, 0) # xs"
proof -
  have u: "[0..<BOARD_SIZE] = 0 # [1..<BOARD_SIZE]"
    by (simp add: BOARD_SIZE_def upt_conv_Cons)
  have a: "is_active_cell 0 0"
    by (simp add: is_active_cell_iff boards_covering_cell_eq)
  show ?thesis
    unfolding active_cells_def by (subst (1 2) u) (simp add: a)
qed

lemma ones_hole_nth:
  "r < 21 \<Longrightarrow> c < 21 \<Longrightarrow>
   set_cell (replicate 21 (replicate 21 (Some (1::nat)))) 0 0 None ! r ! c
     = (if r = 0 \<and> c = 0 then None else Some 1)"
  by (simp add: set_cell_nth)

lemma ones_hole_candidates:
  "candidates (set_cell (replicate 21 (replicate 21 (Some 1))) 0 0 None) 0 0 = [2, 3, 4, 5, 6, 7, 8, 9]"
  by code_simp

lemma ones_hole_valid:
  "list_all (is_valid_assignment (set_cell (replicate 21 (replicate 21 (Some 1))) 0 0 None) 0 0)
     [2, 3, 4, 5, 6, 7, 8, 9]"
  by code_simp

lemma ones_hole_next:
  "find_next_cell (set_cell (replicate 21 (replicate 21 (Some 1))) 0 0 None)
     = Some (0, 0, [2, 3, 4, 5, 6, 7, 8, 9])"
proof -
  let ?g = "set_cell (replicate 21 (replicate 21 (Some (1::nat)))) 0 0 None"
  obtain xs where xs: "active_cells = (0, 0) # xs" using active_cells_head by blast
  have "distinct ((0, 0) # xs)" using distinct_active_cells unfolding xs .
  then have d: "(0, 0) \<notin> set xs" by simp
  have rest: "\<forall>(r, c) \<in> set xs. ?g ! r ! c \<noteq> None"
  proof -
    have "?g ! r ! c \<noteq> None" if m: "(r, c) \<in> set xs" for r c
    proof -
      from m have "(r, c) \<in> set active_cells" unfolding xs by simp
      then have b: "r < 21" "c < 21" using active_cells_bound by auto
      from m d have "\<not> (r = 0 \<and> c = 0)" by blast
      with ones_hole_nth [OF b] show ?thesis by simp
    qed
    then show ?thesis by blast
  qed
  have "find_next_cell ?g = find_next_cell_loop ?g ((0, 0) # xs) None"
    unfolding find_next_cell_def xs ..
  also have "\<dots> = find_next_cell_loop ?g xs (Some (0, 0, [2, 3, 4, 5, 6, 7, 8, 9]))"
    using ones_hole_candidates ones_hole_nth [of 0 0] by simp
  also have "\<dots> = Some (0, 0, [2, 3, 4, 5, 6, 7, 8, 9])"
    using rest by (rule find_next_cell_loop_full)
  finally show ?thesis .
qed

lemma ones_hole_filled:
  "\<forall>(r, c) \<in> set active_cells.
     set_cell (set_cell (replicate 21 (replicate 21 (Some (1::nat)))) 0 0 None) 0 0 (Some v) ! r ! c \<noteq> None"
proof -
  have "set_cell (set_cell (replicate 21 (replicate 21 (Some (1::nat)))) 0 0 None) 0 0 (Some v) ! r ! c \<noteq> None"
    if m: "(r, c) \<in> set active_cells" for r c
  proof -
    from m have b: "r < 21" "c < 21" using active_cells_bound by auto
    then show ?thesis by (simp add: set_cell_twice set_cell_nth)
  qed
  then show ?thesis by blast
qed

lemma ones_hole_count:
  "solution_count (set_cell (replicate 21 (replicate 21 (Some 1))) 0 0 None) = 8"
proof -
  let ?g = "set_cell (replicate 21 (replicate 21 (Some (1::nat)))) 0 0 None"
  let ?L = "[2, 3, 4, 5, 6, 7, 8, 9 :: nat]"
  have leaf: "count_leaves (Suc (length active_cells) - 1) (set_cell ?g 0 0 (Some v)) = 1" for v
    using ones_hole_filled by (rule count_leaves_full) (simp add: length_active_cells)
  have valid: "is_valid_assignment ?g 0 0 v" if "v \<in> set ?L" for v
    using ones_hole_valid that unfolding list_all_iff by blast
  have "count_leaves (Suc (length active_cells)) ?g
        = sum_list (map (\<lambda>v. if is_valid_assignment ?g 0 0 v
                                then count_leaves (Suc (length active_cells) - 1) (set_cell ?g 0 0 (Some v))
                                else 0) ?L)"
    by (subst count_leaves.simps) (simp only: ones_hole_next option.case prod.case nat.simps if_False)
  also have "\<dots> = sum_list (map (\<lambda>v. 1) ?L)"
    by (rule arg_cong [where f = sum_list], rule map_cong [OF refl]) (simp only: valid leaf if_True)
  also have "\<dots> = 8" by simp
  finally show ?thesis by (simp only: solution_count_def)
qed

text \<open>
  An instance of claim C10 in which the search makes and undoes trial assignments: all
  cells hold 1 except the empty cell (0, 0). The eight candidates 2 to 9 are shuffled
  with draws of the ambient source, each is assigned, counted as a full grid and
  removed again; the count 8 stays below the limit 10.
\<close>

theorem solve_unique_frame_witness:
  "\<exists>used amb'.
     solve_unique (set_cell (replicate 21 (replicate 21 (Some 1))) 0 0 None) 10 [3, 1, 4, 1, 5, 9, 2, 6]
       = Some ((True, 8), used, amb')
     \<and> int 8 < 10
     \<and> used = set_cell (replicate 21 (replicate 21 (Some 1))) 0 0 None"
proof -
  let ?g = "set_cell (replicate 21 (replicate 21 (Some (1::nat)))) 0 0 None"
  have wf: "wf_grid ?g"
    by (rule wf_grid_set_cell) (simp add: wf_grid_def BOARD_SIZE_def list_all_length)
  from solve_unique_result [OF wf, of 10 "[3, 1, 4, 1, 5, 9, 2, 6]"]
  obtain used amb' where
    run: "solve_unique ?g 10 [3, 1, 4, 1, 5, 9, 2, 6] = Some ((True, 8), used, amb')"
    unfolding ones_hole_count by auto
  have "used = ?g"
    by (rule solve_unique_frame [OF run]) simp
  with run show ?thesis by simp
qed

subsection \<open>Which errors the entry point can raise\<close>

















subsection \<open>Valid boards\<close>

lemma mset_digits:
  assumes "distinct xs" "length xs = 9" "\<forall>x \<in> set xs. 1 \<le> x \<and> x \<le> (9::nat)"
  shows "mset xs = mset [1..<10]"
proof -
  have sub: "set xs \<subseteq> {1..<10}" using assms(3) by auto
  have "card (set xs) = 9" using assms(1,2) by (simp add: distinct_card)
  then have "set xs = {1..<10}" using sub by (simp add: card_subset_eq)
  then have "set xs = set [1..<10]" by simp
  with set_eq_iff_mset_eq_distinct [OF assms(1) distinct_upt, of 1 10] show ?thesis by blast
qed

lemma mset_digits_conv:
  assumes "mset xs = mset [1..<(10::nat)]"
  shows "distinct xs" "length xs = 9" "\<forall>x \<in> set xs. 1 \<le> x \<and> x \<le> 9"
proof -
  show "distinct xs" using assms by (metis distinct_upt mset_eq_imp_distinct_iff)
  have "length xs = length [1..<(10::nat)]" using assms by (rule mset_eq_length)
  then show "length xs = 9" by simp
  have "set xs = set [1..<10]" using assms by (metis set_mset_mset)
  then show "\<forall>x \<in> set xs. 1 \<le> x \<and> x \<le> 9" by auto
qed

lemma div3_range: "a * 3 \<le> x \<Longrightarrow> x < a * 3 + 3 \<Longrightarrow> x div 3 = (a::nat)"
  by (rule div_nat_eqI) (simp_all add: mult.commute)

lemma div3_range_iff: "(a * 3 \<le> x \<and> x < a * 3 + 3) \<longleftrightarrow> x div 3 = (a::nat)"
proof
  assume "a * 3 \<le> x \<and> x < a * 3 + 3"
  then show "x div 3 = a" by (simp add: div3_range)
next
  assume "x div 3 = a"
  then have "a * 3 + x mod 3 = x" by auto
  moreover have "x mod 3 < 3" by simp
  ultimately show "a * 3 \<le> x \<and> x < a * 3 + 3" by linarith
qed

lemma row_cells_mem: "p \<in> set (row_cells_in_board 0 0 k) \<longleftrightarrow> fst p = k \<and> snd p < 9"
  by (cases p) (auto simp: row_cells_in_board_def)

lemma col_cells_mem: "p \<in> set (col_cells_in_board 0 0 k) \<longleftrightarrow> snd p = k \<and> fst p < 9"
  by (cases p) (auto simp: col_cells_in_board_def)

lemma box_cells_mem0:
  "p \<in> set (box_cells_in_board 0 0 br bc) \<longleftrightarrow>
     br * 3 \<le> fst p \<and> fst p < br * 3 + 3 \<and> bc * 3 \<le> snd p \<and> snd p < bc * 3 + 3"
  by (cases p) (simp add: box_cells_mem)

lemma box_cells_mem_div:
  "(r, c) \<in> set (box_cells_in_board 0 0 br bc) \<longleftrightarrow> r div 3 = br \<and> c div 3 = bc"
  using div3_range_iff [of br r] div3_range_iff [of bc c] by (auto simp: box_cells_mem0)

lemma distinct_row_cells: "distinct (row_cells_in_board r0 c0 k)"
  by (simp add: row_cells_in_board_def distinct_map inj_on_def)

lemma distinct_col_cells: "distinct (col_cells_in_board r0 c0 k)"
  by (simp add: col_cells_in_board_def distinct_map inj_on_def)

lemma distinct_box_cells: "distinct (box_cells_in_board r0 c0 br bc)"
  unfolding box_cells_in_board_def
proof -
  have "distinct (concat (map (\<lambda>r. map (Pair r) (map (\<lambda>cc. c0 + cc) [bc * 3..<bc * 3 + 3]))
                              (map (\<lambda>rr. r0 + rr) [br * 3..<br * 3 + 3])))"
    by (rule distinct_concat_pairs) (simp_all add: distinct_map inj_on_def)
  then show "distinct (concat (map (\<lambda>rr. map (\<lambda>cc. (r0 + rr, c0 + cc)) [bc * 3..<bc * 3 + 3])
                                    [br * 3..<br * 3 + 3]))"
    by (simp add: comp_def)
qed

lemma length_row_cells: "length (row_cells_in_board r0 c0 k) = 9"
  by (simp add: row_cells_in_board_def)

lemma length_col_cells: "length (col_cells_in_board r0 c0 k) = 9"
  by (simp add: col_cells_in_board_def)

lemma length_box_cells: "length (box_cells_in_board r0 c0 br bc) = 9"
  by (simp add: box_cells_in_board_def length_concat comp_def sum_list_triv)

lemma unit_okI:
  assumes "consistent b" "full9 b" "distinct cells" "length cells = 9"
    and "\<forall>p \<in> set cells. fst p < 9 \<and> snd p < 9"
    and "\<forall>p \<in> set cells. \<forall>q \<in> set cells. same_unit p q"
  shows "unit_ok b cells"
  unfolding unit_ok_def
proof (rule mset_digits)
  show "length (unit_values b cells) = 9" using assms(4) by (simp add: unit_values_def)
  show "\<forall>x \<in> set (unit_values b cells). 1 \<le> x \<and> x \<le> 9"
  proof
    fix x assume "x \<in> set (unit_values b cells)"
    then obtain p where p: "p \<in> set cells" "x = b ! fst p ! snd p"
      by (auto simp: unit_values_def)
    with assms(5) have bnd: "fst p < 9" "snd p < 9" by auto
    from assms(1) bnd have "b ! fst p ! snd p \<le> 9" unfolding consistent_def by blast
    moreover from assms(2) bnd have "b ! fst p ! snd p \<noteq> 0" unfolding full9_def by blast
    ultimately show "1 \<le> x \<and> x \<le> 9" using p(2) by simp
  qed
  have "inj_on (\<lambda>(r, c). b ! r ! c) (set cells)"
  proof (rule inj_onI)
    fix p q assume pq: "p \<in> set cells" "q \<in> set cells"
      and eq: "(case p of (r, c) \<Rightarrow> b ! r ! c) = (case q of (r, c) \<Rightarrow> b ! r ! c)"
    obtain r c where p: "p = (r, c)" by (cases p)
    obtain r' c' where q: "q = (r', c')" by (cases q)
    from pq p q assms(5) have bnd: "r < 9" "c < 9" "r' < 9" "c' < 9" by auto
    from pq assms(6) p q have su: "same_unit (r, c) (r', c')" by auto
    from assms(2) bnd have nz: "b ! r ! c \<noteq> 0" by (simp add: full9_def)
    from eq p q have "b ! r ! c = b ! r' ! c'" by simp
    with assms(1) bnd su nz have "(r, c) = (r', c')"
      unfolding consistent_def by blast
    with p q show "p = q" by simp
  qed
  with assms(3) show "distinct (unit_values b cells)"
    by (simp add: unit_values_def distinct_map)
qed

lemma valid_boardI:
  assumes "dims9 b" "consistent b" "full9 b"
  shows "valid_board b"
proof -
  have len: "length b = 9" "list_all (\<lambda>row. length row = 9) b"
    using assms(1) by (auto simp: dims9_def list_all_length)
  have rows: "unit_ok b (row_cells_in_board 0 0 k)" if "k < 9" for k
    using assms(2,3) distinct_row_cells length_row_cells
    by (rule unit_okI) (use that in \<open>auto simp: row_cells_mem same_unit_def\<close>)
  have cols: "unit_ok b (col_cells_in_board 0 0 k)" if "k < 9" for k
    using assms(2,3) distinct_col_cells length_col_cells
    by (rule unit_okI) (use that in \<open>auto simp: col_cells_mem same_unit_def\<close>)
  have boxes: "unit_ok b (box_cells_in_board 0 0 (k div 3) (k mod 3))" if "k < 9" for k
    using assms(2,3) distinct_box_cells length_box_cells
  proof (rule unit_okI)
    have k3: "k div 3 < 3" using that by simp
    show "\<forall>p \<in> set (box_cells_in_board 0 0 (k div 3) (k mod 3)). fst p < 9 \<and> snd p < 9"
      using k3 by (auto simp: box_cells_mem0)
    show "\<forall>p \<in> set (box_cells_in_board 0 0 (k div 3) (k mod 3)).
            \<forall>q \<in> set (box_cells_in_board 0 0 (k div 3) (k mod 3)). same_unit p q"
    proof (intro ballI)
      fix p q assume "p \<in> set (box_cells_in_board 0 0 (k div 3) (k mod 3))"
        "q \<in> set (box_cells_in_board 0 0 (k div 3) (k mod 3))"
      then have "fst p div 3 = k div 3" "fst q div 3 = k div 3" "snd p div 3 = k mod 3" "snd q div 3 = k mod 3"
        unfolding box_cells_mem0 by (auto intro: div3_range)
      then show "same_unit p q" by (simp add: same_unit_def)
    qed
  qed
  show ?thesis
    unfolding valid_board_def using len rows cols boxes by (simp add: list_all_iff)
qed

lemma unit_ok_values:
  assumes "unit_ok b cells" "distinct cells"
  shows "\<forall>p \<in> set cells. 1 \<le> b ! fst p ! snd p \<and> b ! fst p ! snd p \<le> 9"
    and "\<forall>p \<in> set cells. \<forall>q \<in> set cells. p \<noteq> q \<longrightarrow> b ! fst p ! snd p \<noteq> b ! fst q ! snd q"
proof -
  note m = mset_digits_conv [OF assms(1) [unfolded unit_ok_def]]
  have f: "(\<lambda>(r, c). b ! r ! c) = (\<lambda>p. b ! fst p ! snd p)" by (auto simp: fun_eq_iff)
  from m(3) show "\<forall>p \<in> set cells. 1 \<le> b ! fst p ! snd p \<and> b ! fst p ! snd p \<le> 9"
    by (simp add: unit_values_def f)
  from m(1) assms(2) have "inj_on (\<lambda>p. b ! fst p ! snd p) (set cells)"
    by (simp add: unit_values_def f distinct_map)
  then show "\<forall>p \<in> set cells. \<forall>q \<in> set cells. p \<noteq> q \<longrightarrow> b ! fst p ! snd p \<noteq> b ! fst q ! snd q"
    by (auto dest: inj_onD)
qed

lemma unit_ok_diff:
  assumes "unit_ok b cells" "distinct cells" "(r, c) \<in> set cells" "(r', c') \<in> set cells"
    "(r, c) \<noteq> (r', c')"
  shows "b ! r ! c \<noteq> b ! r' ! c'"
  using bspec [OF bspec [OF unit_ok_values(2) [OF assms(1,2)] assms(3)] assms(4)] assms(5)
  by simp

lemma valid_boardD:
  assumes "valid_board b"
  shows "dims9 b" "consistent b" "full9 b"
proof -
  from assms have len: "length b = 9" "\<forall>r < 9. length (b ! r) = 9"
    by (auto simp: valid_board_def list_all_length)
  then show "dims9 b" by (simp add: dims9_def)
  from assms have rows: "\<And>k. k < 9 \<Longrightarrow> unit_ok b (row_cells_in_board 0 0 k)"
    and cols: "\<And>k. k < 9 \<Longrightarrow> unit_ok b (col_cells_in_board 0 0 k)"
    and boxes: "\<And>k. k < 9 \<Longrightarrow> unit_ok b (box_cells_in_board 0 0 (k div 3) (k mod 3))"
    by (auto simp: valid_board_def list_all_iff)
  have val: "1 \<le> b ! r ! c \<and> b ! r ! c \<le> 9" if "r < 9" "c < 9" for r c
    using bspec [OF unit_ok_values(1) [OF rows [OF that(1)] distinct_row_cells], of "(r, c)"] that(2)
    by (simp add: row_cells_mem)
  then show "full9 b" by (fastforce simp: full9_def)
  have diff: "b ! r ! c \<noteq> b ! r' ! c'"
    if bnd: "r < 9" "c < 9" "r' < 9" "c' < 9" and ne: "(r, c) \<noteq> (r', c')" and su: "same_unit (r, c) (r', c')"
    for r c r' c'
  proof -
    from su consider "r = r'" | "c = c'" | "r div 3 = r' div 3" "c div 3 = c' div 3"
      by (auto simp: same_unit_def)
    then show ?thesis
    proof cases
      case 1
      have "(r, c) \<in> set (row_cells_in_board 0 0 r)" "(r', c') \<in> set (row_cells_in_board 0 0 r)"
        using 1 bnd by (simp_all add: row_cells_mem)
      with unit_ok_diff [OF rows [OF bnd(1)] distinct_row_cells] ne show ?thesis by blast
    next
      case 2
      have "(r, c) \<in> set (col_cells_in_board 0 0 c)" "(r', c') \<in> set (col_cells_in_board 0 0 c)"
        using 2 bnd by (simp_all add: col_cells_mem)
      with unit_ok_diff [OF cols [OF bnd(2)] distinct_col_cells] ne show ?thesis by blast
    next
      case 3
      let ?k = "(r div 3) * 3 + c div 3"
      have "r div 3 < 3" "c div 3 < 3" using bnd by simp_all
      then have k: "?k < 9" "?k div 3 = r div 3" "?k mod 3 = c div 3" by simp_all
      have "(r, c) \<in> set (box_cells_in_board 0 0 (r div 3) (c div 3))"
        "(r', c') \<in> set (box_cells_in_board 0 0 (r div 3) (c div 3))"
        using 3 by (simp_all add: box_cells_mem_div)
      with unit_ok_diff [OF boxes [OF k(1), unfolded k(2,3)] distinct_box_cells] ne
      show ?thesis by blast
    qed
  qed
  show "consistent b"
    unfolding consistent_def using val diff by (meson order.trans)
qed

subsection \<open>The bookkeeping of the backtracking fill\<close>

lemma box_index_eq_iff:
  "r < 9 \<Longrightarrow> c < 9 \<Longrightarrow> r' < 9 \<Longrightarrow> c' < 9 \<Longrightarrow>
   box_index r c = box_index r' c' \<longleftrightarrow> r div 3 = r' div 3 \<and> c div 3 = c' div 3"
proof -
  assume b: "r < 9" "c < 9" "r' < 9" "c' < 9"
  then have d: "r div 3 < 3" "c div 3 < 3" "r' div 3 < 3" "c' div 3 < 3" by simp_all
  show ?thesis
  proof
    assume e: "box_index r c = box_index r' c'"
    then have "(r div 3 * 3 + c div 3) div 3 = (r' div 3 * 3 + c' div 3) div 3"
      "(r div 3 * 3 + c div 3) mod 3 = (r' div 3 * 3 + c' div 3) mod 3"
      by (simp_all add: box_index_def)
    with d show "r div 3 = r' div 3 \<and> c div 3 = c' div 3" by simp
  next
    assume "r div 3 = r' div 3 \<and> c div 3 = c' div 3"
    then show "box_index r c = box_index r' c'" by (simp add: box_index_def)
  qed
qed

lemma box_index_less: "r < 9 \<Longrightarrow> c < 9 \<Longrightarrow> box_index r c < 9"
proof -
  assume "r < 9" "c < 9"
  then have "r div 3 < 3" "c div 3 < 3" by simp_all
  then show ?thesis by (simp add: box_index_def)
qed

lemma board_update_nth:
  "dims9 b \<Longrightarrow> r < 9 \<Longrightarrow> c < 9 \<Longrightarrow>
   b[r := (b ! r)[c := v]] ! r' ! c' = (if r' = r \<and> c' = c then v else b ! r' ! c')"
  by (auto simp: dims9_def nth_list_update)

lemma board_update_dims: "dims9 b \<Longrightarrow> dims9 (b[r := (b ! r)[c := v]])"
  by (cases "r < 9") (auto simp: dims9_def nth_list_update)

lemma place_board: "board (place r c v s) = (board s)[r := (board s ! r)[c := v]]"
  by (simp add: place_def Let_def)

lemma insert_values:
  fixes f :: "'i \<Rightarrow> nat"
  assumes "f i = 0" "v \<noteq> 0" "P i"
  shows "insert v {x. x \<noteq> 0 \<and> (\<exists>j. P j \<and> f j = x)}
         = {x. x \<noteq> 0 \<and> (\<exists>j. P j \<and> (if j = i then v else f j) = x)}" (is "?L = ?R")
proof (intro set_eqI iffI)
  fix x assume "x \<in> ?L"
  then consider "x = v" | j where "x \<noteq> 0" "P j" "f j = x" by auto
  then show "x \<in> ?R"
  proof cases
    case 1 then show ?thesis using assms by (auto intro!: exI [of _ i])
  next
    case 2
    then have "j \<noteq> i" using assms(1) by auto
    with 2 show ?thesis by (auto intro!: exI [of _ j])
  qed
next
  fix x assume "x \<in> ?R" then show "x \<in> ?L" by (auto split: if_splits)
qed

lemma place_ok:
  assumes "scratch_ok s" "r < 9" "c < 9" "board s ! r ! c = 0" "v \<noteq> 0"
  shows "scratch_ok (place r c v s)"
proof -
  from assms(1) have d: "dims9 (board s)" by (simp add: scratch_ok_def)
  note nth = board_update_nth [OF d assms(2,3)]
  have bi: "box_index r c < 9" using assms(2,3) by (rule box_index_less)
  have b_def: "(r div 3) * 3 + c div 3 = box_index r c" by (simp add: box_index_def)
  have rows_eq: "rows (place r c v s) ! k = {v'. v' \<noteq> 0 \<and> (\<exists>c' < 9. board (place r c v s) ! k ! c' = v')}"
    if k: "k < 9" for k
  proof (cases "k = r")
    case True
    have "rows (place r c v s) ! r = insert v (rows s ! r)"
      using assms(1,2) by (simp add: place_def Let_def scratch_ok_def)
    also have "rows s ! r = {v'. v' \<noteq> 0 \<and> (\<exists>c'. c' < 9 \<and> board s ! r ! c' = v')}"
      using assms(1,2) by (simp add: scratch_ok_def)
    also have "insert v \<dots> = {v'. v' \<noteq> 0 \<and> (\<exists>c'. c' < 9 \<and> (if c' = c then v else board s ! r ! c') = v')}"
      using assms(3,4,5) by (intro insert_values) 
    also have "\<dots> = {v'. v' \<noteq> 0 \<and> (\<exists>c' < 9. board (place r c v s) ! r ! c' = v')}"
      by (simp add: place_board nth)
    finally show ?thesis using True by simp
  next
    case False
    have "rows (place r c v s) ! k = rows s ! k"
      using False by (simp add: place_def Let_def)
    also have "\<dots> = {v'. v' \<noteq> 0 \<and> (\<exists>c' < 9. board s ! k ! c' = v')}"
      using assms(1) k by (simp add: scratch_ok_def)
    also have "\<dots> = {v'. v' \<noteq> 0 \<and> (\<exists>c' < 9. board (place r c v s) ! k ! c' = v')}"
      using False by (simp add: place_board nth)
    finally show ?thesis .
  qed
  have cols_eq: "cols (place r c v s) ! k = {v'. v' \<noteq> 0 \<and> (\<exists>r' < 9. board (place r c v s) ! r' ! k = v')}"
    if k: "k < 9" for k
  proof (cases "k = c")
    case True
    have "cols (place r c v s) ! c = insert v (cols s ! c)"
      using assms(1,3) by (simp add: place_def Let_def scratch_ok_def)
    also have "cols s ! c = {v'. v' \<noteq> 0 \<and> (\<exists>r'. r' < 9 \<and> board s ! r' ! c = v')}"
      using assms(1,3) by (simp add: scratch_ok_def)
    also have "insert v \<dots> = {v'. v' \<noteq> 0 \<and> (\<exists>r'. r' < 9 \<and> (if r' = r then v else board s ! r' ! c) = v')}"
      using assms(2,4,5) by (intro insert_values)
    also have "\<dots> = {v'. v' \<noteq> 0 \<and> (\<exists>r' < 9. board (place r c v s) ! r' ! c = v')}"
      by (simp add: place_board nth)
    finally show ?thesis using True by simp
  next
    case False
    have "cols (place r c v s) ! k = cols s ! k"
      using False by (simp add: place_def Let_def)
    also have "\<dots> = {v'. v' \<noteq> 0 \<and> (\<exists>r' < 9. board s ! r' ! k = v')}"
      using assms(1) k by (simp add: scratch_ok_def)
    also have "\<dots> = {v'. v' \<noteq> 0 \<and> (\<exists>r' < 9. board (place r c v s) ! r' ! k = v')}"
      using False by (simp add: place_board nth)
    finally show ?thesis .
  qed
  have boxs_eq: "boxs (place r c v s) ! k
      = {v'. v' \<noteq> 0 \<and> (\<exists>r' < 9. \<exists>c' < 9. box_index r' c' = k \<and> board (place r c v s) ! r' ! c' = v')}"
    if k: "k < 9" for k
  proof (cases "k = box_index r c")
    case True
    let ?P = "\<lambda>j. fst j < 9 \<and> snd j < 9 \<and> box_index (fst j) (snd j) = box_index r c"
    let ?f = "\<lambda>j. board s ! fst j ! snd j"
    have "boxs (place r c v s) ! box_index r c = insert v (boxs s ! box_index r c)"
      using assms(1) bi by (simp add: place_def Let_def scratch_ok_def b_def)
    also have "boxs s ! box_index r c = {v'. v' \<noteq> 0 \<and> (\<exists>j. ?P j \<and> ?f j = v')}"
      using assms(1) bi by (auto simp: scratch_ok_def)
    also have "insert v \<dots> = {v'. v' \<noteq> 0 \<and> (\<exists>j. ?P j \<and> (if j = (r, c) then v else ?f j) = v')}"
      using assms(2,3,4,5) by (intro insert_values) simp_all
    also have "\<dots> = {v'. v' \<noteq> 0 \<and> (\<exists>r' < 9. \<exists>c' < 9. box_index r' c' = box_index r c
                \<and> board (place r c v s) ! r' ! c' = v')}"
      by (auto simp: place_board nth)
    finally show ?thesis using True by simp
  next
    case False
    have "boxs (place r c v s) ! k = boxs s ! k"
      using False by (simp add: place_def Let_def b_def)
    also have "\<dots> = {v'. v' \<noteq> 0 \<and> (\<exists>r' < 9. \<exists>c' < 9. box_index r' c' = k \<and> board s ! r' ! c' = v')}"
      using assms(1) k by (simp add: scratch_ok_def)
    also have "\<dots> = {v'. v' \<noteq> 0 \<and> (\<exists>r' < 9. \<exists>c' < 9. box_index r' c' = k
                            \<and> board (place r c v s) ! r' ! c' = v')}"
      using False by (auto simp: place_board nth)
    finally show ?thesis .
  qed
  have lens: "dims9 (board (place r c v s))" "length (rows (place r c v s)) = 9"
    "length (cols (place r c v s)) = 9" "length (boxs (place r c v s)) = 9"
    using assms(1) board_update_dims [OF d] by (simp_all add: place_def Let_def scratch_ok_def)
  show ?thesis
    unfolding scratch_ok_def using lens rows_eq cols_eq boxs_eq by blast
qed

lemma scratch_okD:
  assumes "scratch_ok s"
  shows "dims9 (board s)" "length (rows s) = 9" "length (cols s) = 9" "length (boxs s) = 9"
    and "k < 9 \<Longrightarrow> rows s ! k = {v. v \<noteq> 0 \<and> (\<exists>c < 9. board s ! k ! c = v)}"
    and "k < 9 \<Longrightarrow> cols s ! k = {v. v \<noteq> 0 \<and> (\<exists>r < 9. board s ! r ! k = v)}"
    and "k < 9 \<Longrightarrow> boxs s ! k = {v. v \<noteq> 0 \<and> (\<exists>r < 9. \<exists>c < 9. box_index r c = k \<and> board s ! r ! c = v)}"
  using assms by (simp_all add: scratch_ok_def)

lemma unplace_place:
  assumes "scratch_ok s" "r < 9" "c < 9" "board s ! r ! c = 0"
    and "v \<notin> rows s ! r" "v \<notin> cols s ! c" "v \<notin> boxs s ! box_index r c"
  shows "unplace r c v (place r c v s) = Inr s"
proof -
  note ok = scratch_okD [OF assms(1)]
  have bi: "box_index r c < 9" using assms(2,3) by (rule box_index_less)
  have b_def: "(r div 3) * 3 + c div 3 = box_index r c" by (simp add: box_index_def)
  have len: "r < length (board s)" "c < length (board s ! r)"
    using ok(1) assms(2,3) by (simp_all add: dims9_def)
  have "(board s ! r)[c := 0] = board s ! r"
    using assms(4) list_update_id [of "board s ! r" c] by simp
  then have brd: "(board s)[r := (board s ! r)[c := 0]] = board s" by simp
  have "unplace r c v (place r c v s)
        = Inr \<lparr>rows = rows s, cols = cols s, boxs = boxs s, board = board s\<rparr>"
    using assms(2,3,5,6,7) ok(2,3,4) bi len brd
    by (simp add: unplace_def place_def Let_def b_def list_update_same_conv)
  then show ?thesis by simp
qed

lemma not_in_sets:
  assumes "scratch_ok s" "r < 9" "c < 9"
    and "v \<notin> rows s ! r" "v \<notin> cols s ! c" "v \<notin> boxs s ! box_index r c" "v \<noteq> 0"
    and "r' < 9" "c' < 9" "same_unit (r, c) (r', c')"
  shows "board s ! r' ! c' \<noteq> v"
proof
  assume e: "board s ! r' ! c' = v"
  note ok = scratch_okD [OF assms(1)]
  have bi: "box_index r c < 9" using assms(2,3) by (rule box_index_less)
  from assms(10) consider "r' = r" | "c' = c" | "r div 3 = r' div 3" "c div 3 = c' div 3"
    by (auto simp: same_unit_def)
  then show False
  proof cases
    case 1
    then have "v \<in> rows s ! r" using ok(5) [OF assms(2)] e assms(7,9) by auto
    with assms(4) show False by simp
  next
    case 2
    then have "v \<in> cols s ! c" using ok(6) [OF assms(3)] e assms(7,8) by auto
    with assms(5) show False by simp
  next
    case 3
    then have "box_index r' c' = box_index r c"
      using box_index_eq_iff [OF assms(8,9,2,3)] by simp
    then have "v \<in> boxs s ! box_index r c" using ok(7) [OF bi] e assms(7,8,9) by auto
    with assms(6) show False by simp
  qed
qed

lemma same_unit_sym: "same_unit p q \<Longrightarrow> same_unit q p"
  by (auto simp: same_unit_def)

lemma place_consistent:
  assumes "scratch_ok s" "consistent (board s)" "r < 9" "c < 9"
    and "v \<notin> rows s ! r" "v \<notin> cols s ! c" "v \<notin> boxs s ! box_index r c" "v \<noteq> 0" "v \<le> 9"
  shows "consistent (board (place r c v s))"
proof -
  note ok = scratch_okD [OF assms(1)]
  note nth = board_update_nth [OF ok(1) assms(3,4)]
  let ?b = "board (place r c v s)"
  have old: "board s ! a ! b \<noteq> board s ! a' ! b'"
    if "a < 9" "b < 9" "a' < 9" "b' < 9" "(a, b) \<noteq> (a', b')" "same_unit (a, b) (a', b')"
      "board s ! a ! b \<noteq> 0" for a b a' b'
    using assms(2) that unfolding consistent_def by blast
  have le: "?b ! a ! b \<le> 9" if "a < 9" "b < 9" for a b
    using assms(2,9) that by (simp add: place_board nth consistent_def)
  have diff: "?b ! a ! b \<noteq> ?b ! a' ! b'"
    if t: "a < 9" "b < 9" "a' < 9" "b' < 9" "(a, b) \<noteq> (a', b')" "same_unit (a, b) (a', b')"
      "?b ! a ! b \<noteq> 0" for a b a' b'
  proof (cases "(a, b) = (r, c)")
    case True
    then have 1: "?b ! a ! b = v" by (simp add: place_board nth)
    from True t(5) have 2: "?b ! a' ! b' = board s ! a' ! b'" by (auto simp: place_board nth)
    from True t(6) have "same_unit (r, c) (a', b')" by simp
    from not_in_sets [OF assms(1,3,4,5,6,7,8) t(3,4) this] 1 2 show ?thesis by simp
  next
    case False
    then have 1: "?b ! a ! b = board s ! a ! b" by (auto simp: place_board nth)
    show ?thesis
    proof (cases "(a', b') = (r, c)")
      case True
      then have 2: "?b ! a' ! b' = v" by (simp add: place_board nth)
      from True t(6) have "same_unit (r, c) (a, b)" by (simp add: same_unit_sym)
      from not_in_sets [OF assms(1,3,4,5,6,7,8) t(1,2) this] 1 2 show ?thesis by simp
    next
      case False
      then have 2: "?b ! a' ! b' = board s ! a' ! b'" by (auto simp: place_board nth)
      from old [OF t(1,2,3,4,5,6)] t(7) 1 2 show ?thesis by simp
    qed
  qed
  show ?thesis unfolding consistent_def using le diff by blast
qed

subsection \<open>Sampling the whole population gives a permutation\<close>

lemma pool_step_mset:
  assumes "j < length pool"
  shows "add_mset (pool ! j) (mset (butlast (pool[j := last pool]))) = mset pool"
proof -
  from assms have "pool \<noteq> []" by auto
  then obtain ys l where p: "pool = ys @ [l]" by (metis append_butlast_last_id)
  show ?thesis
  proof (cases "j = length ys")
    case True
    then show ?thesis using p by simp
  next
    case False
    with assms p have j: "j < length ys" by simp
    then have "butlast (pool[j := last pool]) = ys[j := l]"
      using p by (simp add: list_update_append)
    moreover have "pool ! j = ys ! j" using p j by (simp add: nth_append)
    moreover have "add_mset (ys ! j) (mset (ys[j := l])) = add_mset l (mset ys)"
      using j by (simp add: mset_update)
    ultimately show ?thesis using p by simp
  qed
qed

lemma sample_pool_mset:
  "length pool = k \<Longrightarrow> mset (fst (sample_pool k pool g)) = mset pool"
proof (induction k arbitrary: pool g)
  case 0
  then show ?case by simp
next
  case (Suc k)
  obtain j g' where rb: "randbelow (length pool) g = (j, g')" by (cases "randbelow (length pool) g")
  have j: "j < length pool" using randbelow_less [of "length pool" g] rb Suc.prems by simp
  let ?pool' = "butlast (pool[j := last pool])"
  have len: "length ?pool' = k" using Suc.prems by simp
  obtain rest g'' where sp: "sample_pool k ?pool' g' = (rest, g'')" by (cases "sample_pool k ?pool' g'")
  from Suc.IH [OF len, of g'] sp have "mset rest = mset ?pool'" by simp
  moreover have "fst (sample_pool (Suc k) pool g) = pool ! j # rest"
    using rb sp by simp
  ultimately show ?case using pool_step_mset [OF j] by simp
qed

lemma sample_digits:
  assumes "sample [1..<10] 9 g = (smp, g')"
  shows "set smp = {1..<10}"
proof -
  have "mset (fst (sample_pool 9 [1..<10] g)) = mset [1..<10]"
    by (rule sample_pool_mset) simp
  then have "mset smp = mset [1..<10]" using assms by (simp add: sample_def)
  then have "set smp = set [1..<10]" by (rule mset_eq_setD)
  then show ?thesis by simp
qed

subsection \<open>The backtracking fill is correct and complete\<close>

lemma completes_cons:
  assumes "scratch_ok s" "r < 9" "c < 9" "(r, c) \<notin> set rest" "v \<noteq> 0"
    and "completes (board (place r c v s)) rest b'"
  shows "completes (board s) ((r, c) # rest) b'"
proof -
  note nth = board_update_nth [OF scratch_okD(1) [OF assms(1)] assms(2,3)]
  from assms(6) have d: "dims9 b'" "consistent b'"
    and agree: "\<And>a b. a < 9 \<Longrightarrow> b < 9 \<Longrightarrow> (a, b) \<notin> set rest \<Longrightarrow>
                  b' ! a ! b = board (place r c v s) ! a ! b"
    and nz: "\<forall>(a, b) \<in> set rest. b' ! a ! b \<noteq> 0"
    by (simp_all add: completes_def)
  have "b' ! r ! c = v" using agree [OF assms(2,3,4)] by (simp add: place_board nth)
  then have nz': "\<forall>(a, b) \<in> set ((r, c) # rest). b' ! a ! b \<noteq> 0" using nz assms(5) by simp
  have "b' ! a ! b = board s ! a ! b" if "a < 9" "b < 9" "(a, b) \<notin> set ((r, c) # rest)" for a b
    using agree [of a b] that by (auto simp: place_board nth)
  then show ?thesis unfolding completes_def using d nz' by blast
qed

lemma completes_place:
  assumes "scratch_ok s" "r < 9" "c < 9" "completes (board s) ((r, c) # rest) b'"
  shows "completes (board (place r c (b' ! r ! c) s)) rest b'"
proof -
  note nth = board_update_nth [OF scratch_okD(1) [OF assms(1)] assms(2,3)]
  from assms(4) have d: "dims9 b'" "consistent b'"
    and agree: "\<And>a b. a < 9 \<Longrightarrow> b < 9 \<Longrightarrow> (a, b) \<notin> set ((r, c) # rest) \<Longrightarrow>
                  b' ! a ! b = board s ! a ! b"
    and nz: "\<forall>(a, b) \<in> set ((r, c) # rest). b' ! a ! b \<noteq> 0"
    by (simp_all add: completes_def)
  have "b' ! a ! b = board (place r c (b' ! r ! c) s) ! a ! b"
    if "a < 9" "b < 9" "(a, b) \<notin> set rest" for a b
    using agree [of a b] that by (auto simp: place_board nth)
  moreover have "\<forall>(a, b) \<in> set rest. b' ! a ! b \<noteq> 0" using nz by simp
  ultimately show ?thesis unfolding completes_def using d by blast
qed

lemma completes_candidate:
  assumes "fill_pre s ((r, c) # rest)" "completes (board s) ((r, c) # rest) b'"
  shows "1 \<le> b' ! r ! c \<and> b' ! r ! c \<le> 9 \<and> b' ! r ! c \<notin> rows s ! r \<and> b' ! r ! c \<notin> cols s ! c
         \<and> b' ! r ! c \<notin> boxs s ! box_index r c"
proof -
  from assms(1) have ok: "scratch_ok s" and rc: "r < 9" "c < 9"
    and empty: "\<And>a b. (a, b) \<in> set ((r, c) # rest) \<Longrightarrow> board s ! a ! b = 0"
    by (auto simp: fill_pre_def)
  note sk = scratch_okD [OF ok]
  have bi: "box_index r c < 9" using rc by (rule box_index_less)
  from assms(2) have cons: "consistent b'"
    and agree: "\<And>a b. a < 9 \<Longrightarrow> b < 9 \<Longrightarrow> (a, b) \<notin> set ((r, c) # rest) \<Longrightarrow>
                  b' ! a ! b = board s ! a ! b"
    and nz: "b' ! r ! c \<noteq> 0"
    by (simp_all add: completes_def)
  let ?v = "b' ! r ! c"
  have le: "?v \<le> 9" using cons rc unfolding consistent_def by blast
  have clash: False
    if t: "a < 9" "b < 9" "same_unit (r, c) (a, b)" "board s ! a ! b = ?v" for a b
  proof -
    from t(4) nz have "board s ! a ! b \<noteq> 0" by simp
    then have notin: "(a, b) \<notin> set ((r, c) # rest)" using empty [of a b] by auto
    then have ne: "(r, c) \<noteq> (a, b)" by auto
    have "b' ! a ! b = ?v" using agree [OF t(1,2) notin] t(4) by simp
    moreover have "?v \<noteq> b' ! a ! b"
      using cons rc t(1,2,3) ne nz unfolding consistent_def by blast
    ultimately show False by simp
  qed
  have "?v \<notin> rows s ! r"
  proof
    assume "?v \<in> rows s ! r"
    then obtain b where "b < 9" "board s ! r ! b = ?v" using sk(5) [OF rc(1)] by auto
    then show False using clash [of r b] rc by (simp add: same_unit_def)
  qed
  moreover have "?v \<notin> cols s ! c"
  proof
    assume "?v \<in> cols s ! c"
    then obtain a where "a < 9" "board s ! a ! c = ?v" using sk(6) [OF rc(2)] by auto
    then show False using clash [of a c] rc by (simp add: same_unit_def)
  qed
  moreover have "?v \<notin> boxs s ! box_index r c"
  proof
    assume "?v \<in> boxs s ! box_index r c"
    then obtain a b where ab: "a < 9" "b < 9" "box_index a b = box_index r c" "board s ! a ! b = ?v"
      using sk(7) [OF bi] by auto
    from ab(3) have "r div 3 = a div 3 \<and> c div 3 = b div 3"
      using box_index_eq_iff [OF ab(1,2) rc] by simp
    then have "same_unit (r, c) (a, b)" by (simp add: same_unit_def)
    from clash [OF ab(1,2) this ab(4)] show False .
  qed
  ultimately show ?thesis using nz le by simp
qed

lemma fill_pre_place:
  assumes "fill_pre s ((r, c) # rest)"
    and "1 \<le> v" "v \<le> 9" "v \<notin> rows s ! r" "v \<notin> cols s ! c" "v \<notin> boxs s ! box_index r c"
  shows "fill_pre (place r c v s) rest"
proof -
  from assms(1) have ok: "scratch_ok s" and cons: "consistent (board s)"
    and rc: "r < 9" "c < 9" "board s ! r ! c = 0" and notin: "(r, c) \<notin> set rest"
    and dist: "distinct rest"
    and empty: "\<forall>(a, b) \<in> set rest. a < 9 \<and> b < 9 \<and> board s ! a ! b = 0"
    by (auto simp: fill_pre_def)
  note nth = board_update_nth [OF scratch_okD(1) [OF ok] rc(1,2)]
  from assms(2) have v: "v \<noteq> 0" by simp
  have "scratch_ok (place r c v s)" using ok rc v by (rule place_ok)
  moreover have "consistent (board (place r c v s))"
    using ok cons rc(1,2) assms(4,5,6) v assms(3) by (rule place_consistent)
  moreover have "\<forall>(a, b) \<in> set rest. a < 9 \<and> b < 9 \<and> board (place r c v s) ! a ! b = 0"
    using empty notin by (auto simp: place_board nth)
  ultimately show ?thesis using dist by (simp add: fill_pre_def)
qed

lemma fill_spec:
  "fill_pre s cells \<Longrightarrow> fill_post s cells (fill_from cells s g)"
  "fill_pre s ((r, c) # rest) \<Longrightarrow>
   \<forall>v \<in> set vs. 1 \<le> v \<and> v \<le> 9 \<and> v \<notin> rows s ! r \<and> v \<notin> cols s ! c \<and> v \<notin> boxs s ! box_index r c \<Longrightarrow>
   \<exists>ok s' g'. fill_try r c rest vs s g = Inr (ok, s', g')
      \<and> (if ok then scratch_ok s' \<and> completes (board s) ((r, c) # rest) (board s')
          else s' = s \<and> (\<forall>v \<in> set vs. \<forall>b'. \<not> completes (board (place r c v s)) rest b'))"
proof (induction cells s g and r c rest vs s g rule: fill_from_fill_try.induct)
  case (1 s g)
  then have "scratch_ok s" "completes (board s) [] (board s)"
    by (simp_all add: fill_pre_def completes_def scratch_okD(1))
  then show ?case
    unfolding fill_post_def by (intro exI [of _ True] exI [of _ s] exI [of _ g]) simp
next
  case (2 r c rest s g)
  obtain smp g' where smp: "sample [1..<10] 9 g = (smp, g')" by (cases "sample [1..<10] 9 g")
  let ?cand = "filter (\<lambda>v. v \<notin> rows s ! r \<and> v \<notin> cols s ! c \<and> v \<notin> boxs s ! (r div 3 * 3 + c div 3)) smp"
  have b_def: "r div 3 * 3 + c div 3 = box_index r c" by (simp add: box_index_def)
  have digits: "set smp = {1..<10}" using smp by (rule sample_digits)
  have cand: "\<forall>v \<in> set ?cand. 1 \<le> v \<and> v \<le> 9 \<and> v \<notin> rows s ! r \<and> v \<notin> cols s ! c
                \<and> v \<notin> boxs s ! box_index r c"
    using digits by (auto simp: b_def)
  from "2.IH" [OF refl refl smp [symmetric] refl "2.prems" cand]
  obtain ok s' g'' where res: "fill_try r c rest ?cand s g' = Inr (ok, s', g'')"
    and post: "if ok then scratch_ok s' \<and> completes (board s) ((r, c) # rest) (board s')
               else s' = s \<and> (\<forall>v \<in> set ?cand. \<forall>b'. \<not> completes (board (place r c v s)) rest b')"
    by blast
  have eq: "fill_from ((r, c) # rest) s g = Inr (ok, s', g'')"
    using smp res by (simp add: Let_def)
  show ?case
  proof (cases ok)
    case True
    with post eq show ?thesis by (auto simp: fill_post_def)
  next
    case False
    with post have same: "s' = s"
      and none: "\<And>v b'. v \<in> set ?cand \<Longrightarrow> \<not> completes (board (place r c v s)) rest b'"
      by auto
    from "2.prems" have ok_s: "scratch_ok s" and rc: "r < 9" "c < 9" by (auto simp: fill_pre_def)
    have "\<not> completes (board s) ((r, c) # rest) b'" for b'
    proof
      assume comp: "completes (board s) ((r, c) # rest) b'"
      from completes_candidate [OF "2.prems" comp] digits
      have "b' ! r ! c \<in> set ?cand" by (simp add: b_def)
      from none [OF this] completes_place [OF ok_s rc comp] show False by simp
    qed
    with eq False same show ?thesis by (auto simp: fill_post_def)
  qed
next
  case (3 r c rest s g)
  show ?case by (intro exI [of _ False] exI [of _ s] exI [of _ g]) simp
next
  case (4 r c rest v vs s g)
  from "4.prems"(2) have v: "1 \<le> v" "v \<le> 9" "v \<notin> rows s ! r" "v \<notin> cols s ! c"
      "v \<notin> boxs s ! box_index r c"
    and vs: "\<forall>v \<in> set vs. 1 \<le> v \<and> v \<le> 9 \<and> v \<notin> rows s ! r \<and> v \<notin> cols s ! c
               \<and> v \<notin> boxs s ! box_index r c"
    by simp_all
  from "4.prems"(1) have ok_s: "scratch_ok s" and rc: "r < 9" "c < 9" "board s ! r ! c = 0"
    and notin: "(r, c) \<notin> set rest"
    by (auto simp: fill_pre_def)
  have pre1: "fill_pre (place r c v s) rest" using "4.prems"(1) v by (rule fill_pre_place)
  from "4.IH"(1) [OF pre1]
  obtain ok1 s1 g1 where r1: "fill_from rest (place r c v s) g = Inr (ok1, s1, g1)"
    and post1: "if ok1 then scratch_ok s1 \<and> completes (board (place r c v s)) rest (board s1)
                else s1 = place r c v s \<and> (\<forall>b'. \<not> completes (board (place r c v s)) rest b')"
    unfolding fill_post_def by blast
  show ?case
  proof (cases ok1)
    case True
    from v(1) have "v \<noteq> 0" by simp
    with True post1 have "scratch_ok s1" "completes (board s) ((r, c) # rest) (board s1)"
      using completes_cons [OF ok_s rc(1,2) notin] by auto
    moreover have "fill_try r c rest (v # vs) s g = Inr (True, s1, g1)"
      using r1 True by simp
    ultimately show ?thesis
      by (intro exI [of _ True] exI [of _ s1] exI [of _ g1]) (simp del: fill_try.simps)
  next
    case False
    with post1 have s1: "s1 = place r c v s"
      and none: "\<forall>b'. \<not> completes (board (place r c v s)) rest b'"
      by auto
    have un: "unplace r c v s1 = Inr s"
      unfolding s1 using ok_s rc v(3,4,5) by (rule unplace_place)
    from "4.IH"(2) [OF r1 refl refl False un "4.prems"(1) vs]
    obtain ok s' g' where r2: "fill_try r c rest vs s g1 = Inr (ok, s', g')"
      and post2: "if ok then scratch_ok s' \<and> completes (board s) ((r, c) # rest) (board s')
                  else s' = s \<and> (\<forall>v \<in> set vs. \<forall>b'. \<not> completes (board (place r c v s)) rest b')"
      by blast
    have "fill_try r c rest (v # vs) s g = Inr (ok, s', g')"
      using r1 False un r2 by simp
    moreover have "if ok then scratch_ok s' \<and> completes (board s) ((r, c) # rest) (board s')
        else s' = s \<and> (\<forall>v \<in> set (v # vs). \<forall>b'. \<not> completes (board (place r c v s)) rest b')"
      using post2 none by auto
    ultimately show ?thesis by blast
  qed
qed

subsection \<open>The fill from scratch solves every solvable set of givens\<close>

lemma valid_givensD:
  assumes "valid_givens gs"
  shows "\<And>r c d. (r, c, d) \<in> set gs \<Longrightarrow> r < 9 \<and> c < 9 \<and> d < 9"
    and "distinct (map (\<lambda>(r, c, d). (r, c)) gs)"
    and "distinct (map (\<lambda>(r, c, d). d) gs)"
    and "\<exists>k < 9. \<forall>(r, c, d) \<in> set gs. box_index r c = k"
proof -
  from assms have "\<forall>x \<in> set gs. case x of (r, c, d) \<Rightarrow> r < 9 \<and> c < 9 \<and> d < 9"
    by (simp add: valid_givens_def list_all_iff)
  then show "\<And>r c d. (r, c, d) \<in> set gs \<Longrightarrow> r < 9 \<and> c < 9 \<and> d < 9" by auto
  show "distinct (map (\<lambda>(r, c, d). (r, c)) gs)" "distinct (map (\<lambda>(r, c, d). d) gs)"
    using assms by (simp_all add: valid_givens_def)
  from assms obtain k where "k \<in> set [0..<9]" "list_all (\<lambda>(r, c, d). box_index r c = k) gs"
    unfolding valid_givens_def list_ex_iff by blast
  then show "\<exists>k < 9. \<forall>(r, c, d) \<in> set gs. box_index r c = k"
    by (auto simp: list_all_iff)
qed

lemma valid_givens_append:
  "valid_givens (ds @ gs) \<Longrightarrow> valid_givens ds"
  by (auto simp: valid_givens_def list_ex_iff)

text \<open>The state after the givens in \<open>ds\<close> have been entered.\<close>

lemma scratch_init_aux:
  assumes "scratch_ok s" "consistent (board s)"
    and "\<forall>(r, c, d) \<in> set ds. board s ! r ! c = d + 1"
    and "\<forall>r < 9. \<forall>c < 9. (r, c) \<notin> (\<lambda>(r, c, d). (r, c)) ` set ds \<longrightarrow> board s ! r ! c = 0"
    and "valid_givens (ds @ gs)"
  shows "scratch_ok (fold (\<lambda>(r, c, d) s. place r c (d + 1) s) gs s)
       \<and> consistent (board (fold (\<lambda>(r, c, d) s. place r c (d + 1) s) gs s))
       \<and> (\<forall>(r, c, d) \<in> set (ds @ gs). board (fold (\<lambda>(r, c, d) s. place r c (d + 1) s) gs s) ! r ! c = d + 1)
       \<and> (\<forall>r < 9. \<forall>c < 9. (r, c) \<notin> (\<lambda>(r, c, d). (r, c)) ` set (ds @ gs) \<longrightarrow>
             board (fold (\<lambda>(r, c, d) s. place r c (d + 1) s) gs s) ! r ! c = 0)"
  using assms
proof (induction gs arbitrary: s ds)
  case Nil
  then show ?case by simp
next
  case (Cons g gs)
  obtain r c d where g: "g = (r, c, d)" by (cases g)
  note vg = valid_givensD [OF Cons.prems(5)]
  have rng: "r < 9" "c < 9" "d < 9" using vg(1) [of r c d] g by simp_all
  have cell_new: "(r, c) \<notin> (\<lambda>(r, c, d). (r, c)) ` set ds" using vg(2) g by auto
  have digit_new: "d \<notin> (\<lambda>(r, c, d). d) ` set ds" using vg(3) g by auto
  have empty: "board s ! r ! c = 0" using Cons.prems(4) rng cell_new by simp
  have other: "board s ! a ! b \<noteq> d + 1" if ab: "a < 9" "b < 9" for a b
  proof (cases "(a, b) \<in> (\<lambda>(r, c, d). (r, c)) ` set ds")
    case True
    then obtain d' where m: "(a, b, d') \<in> set ds" by auto
    then have "board s ! a ! b = d' + 1" using Cons.prems(3) by auto
    moreover have "d' \<noteq> d" using m digit_new by force
    ultimately show ?thesis by simp
  next
    case False
    then show ?thesis using Cons.prems(4) ab by simp
  qed
  note sk = scratch_okD [OF Cons.prems(1)]
  have bi: "box_index r c < 9" using rng(1,2) by (rule box_index_less)
  have n1: "d + 1 \<notin> rows s ! r" using sk(5) [OF rng(1)] other rng(1) by auto
  have n2: "d + 1 \<notin> cols s ! c" using sk(6) [OF rng(2)] other rng(2) by auto
  have n3: "d + 1 \<notin> boxs s ! box_index r c" using sk(7) [OF bi] other by auto
  let ?s = "place r c (d + 1) s"
  note nth = board_update_nth [OF sk(1) rng(1,2)]
  have 1: "scratch_ok ?s" using Cons.prems(1) rng(1,2) empty by (rule place_ok) simp
  have 2: "consistent (board ?s)"
    using Cons.prems(1,2) rng(1,2) n1 n2 n3 by (rule place_consistent) (use rng(3) in simp_all)
  have 3: "\<forall>(a, b, e) \<in> set (ds @ [g]). board ?s ! a ! b = e + 1"
  proof (clarify)
    fix a b e assume m: "(a, b, e) \<in> set (ds @ [g])"
    show "board ?s ! a ! b = e + 1"
    proof (cases "(a, b, e) = g")
      case True
      then show ?thesis using g by (simp add: place_board nth)
    next
      case False
      with m have in_ds: "(a, b, e) \<in> set ds" by simp
      then have "(a, b) \<noteq> (r, c)" using cell_new by force
      moreover have "board s ! a ! b = e + 1" using Cons.prems(3) in_ds by auto
      ultimately show ?thesis by (auto simp: place_board nth)
    qed
  qed
  have 4: "\<forall>a < 9. \<forall>b < 9. (a, b) \<notin> (\<lambda>(r, c, d). (r, c)) ` set (ds @ [g]) \<longrightarrow> board ?s ! a ! b = 0"
    using Cons.prems(4) g by (auto simp: place_board nth)
  have 5: "valid_givens ((ds @ [g]) @ gs)" using Cons.prems(5) by simp
  from Cons.IH [OF 1 2 3 4 5] show ?case using g by simp
qed

lemma scratch_init_spec:
  assumes "valid_givens gs"
  shows "scratch_ok (scratch_init gs)" "consistent (board (scratch_init gs))"
    and "\<forall>(r, c, d) \<in> set gs. board (scratch_init gs) ! r ! c = d + 1"
    and "\<forall>r < 9. \<forall>c < 9. (r, c) \<notin> (\<lambda>(r, c, d). (r, c)) ` set gs \<longrightarrow> board (scratch_init gs) ! r ! c = 0"
proof -
  let ?e = "\<lparr>rows = replicate 9 {}, cols = replicate 9 {}, boxs = replicate 9 {},
             board = replicate 9 (replicate 9 (0::nat))\<rparr>"
  have 1: "scratch_ok ?e" by (auto simp: scratch_ok_def dims9_def)
  have 2: "consistent (board ?e)" by (simp add: consistent_def)
  have 3: "\<forall>(r, c, d) \<in> set []. board ?e ! r ! c = d + 1" by simp
  have 4: "\<forall>r < 9. \<forall>c < 9. (r, c) \<notin> (\<lambda>(r, c, d). (r, c)) ` set [] \<longrightarrow> board ?e ! r ! c = 0"
    by simp
  have 5: "valid_givens ([] @ gs)" using assms by simp
  note all = scratch_init_aux [OF 1 2 3 4 5, folded scratch_init_def]
  show "scratch_ok (scratch_init gs)" using all by simp
  show "consistent (board (scratch_init gs))" using all by simp
  show "\<forall>(r, c, d) \<in> set gs. board (scratch_init gs) ! r ! c = d + 1" using all by simp
  show "\<forall>r < 9. \<forall>c < 9. (r, c) \<notin> (\<lambda>(r, c, d). (r, c)) ` set gs \<longrightarrow> board (scratch_init gs) ! r ! c = 0"
    using all by simp
qed

lemma all_cells9:
  "distinct (concat (map (\<lambda>r. map (\<lambda>c. (r, c)) [0..<9]) [0..<9]))"
  "set (concat (map (\<lambda>r. map (\<lambda>c. (r, c)) [0..<9]) [0..<9])) = {(r, c). r < 9 \<and> c < (9::nat)}"
proof -
  have "distinct (concat (map (\<lambda>r. map (Pair r) [0..<9]) [0..<(9::nat)]))"
    by (rule distinct_concat_pairs) simp_all
  then show "distinct (concat (map (\<lambda>r. map (\<lambda>c. (r, c)) [0..<9]) [0..<9]))" by simp
  show "set (concat (map (\<lambda>r. map (\<lambda>c. (r, c)) [0..<9]) [0..<9])) = {(r, c). r < 9 \<and> c < (9::nat)}"
    by auto
qed

lemma solve_from_scratch_spec:
  assumes "valid_givens gs" "valid_board bb" "givens_honoured bb gs"
  shows "\<exists>b g'. solve_from_scratch g gs = Inr (b, g') \<and> valid_board b \<and> givens_honoured b gs"
proof -
  let ?s = "scratch_init gs"
  define cells where "cells = filter (\<lambda>(r, c). board ?s ! r ! c = 0)
                  (concat (map (\<lambda>r. map (\<lambda>c. (r, c)) [0..<9]) [0..<9]))"
  note si = scratch_init_spec [OF assms(1)]
  have mem: "(r, c) \<in> set cells \<longleftrightarrow> r < 9 \<and> c < 9 \<and> board ?s ! r ! c = 0" for r c
    unfolding cells_def set_filter all_cells9(2) by simp
  have given_val: "board ?s ! r ! c = d + 1" if "(r, c, d) \<in> set gs" for r c d
    using si(3) that by auto
  have not_cell: "\<exists>d. (r, c, d) \<in> set gs" if "r < 9" "c < 9" "(r, c) \<notin> set cells" for r c
  proof (rule ccontr)
    assume "\<not> (\<exists>d. (r, c, d) \<in> set gs)"
    then have "(r, c) \<notin> (\<lambda>(r, c, d). (r, c)) ` set gs" by auto
    then have "board ?s ! r ! c = 0" using si(4) that(1,2) by simp
    with that show False by (simp add: mem)
  qed
  have "distinct cells" unfolding cells_def using all_cells9(1) by (rule distinct_filter)
  then have pre: "fill_pre ?s cells"
    unfolding fill_pre_def using si(1,2) mem by auto
  from fill_spec(1) [OF pre, of g]
  obtain ok s' g' where res: "fill_from cells ?s g = Inr (ok, s', g')"
    and post: "if ok then scratch_ok s' \<and> completes (board ?s) cells (board s')
               else s' = ?s \<and> (\<forall>b'. \<not> completes (board ?s) cells b')"
    unfolding fill_post_def by blast
  have honoured_iff: "givens_honoured b gs \<longleftrightarrow> (\<forall>(r, c, d) \<in> set gs. b ! r ! c = d + 1)" for b
    by (simp add: givens_honoured_def list_all_iff)
  note vg = valid_givensD [OF assms(1)]
  show ?thesis
  proof (cases ok)
    case True
    with post have comp: "completes (board ?s) cells (board s')" by simp
    then have d: "dims9 (board s')" and cons: "consistent (board s')"
      and agree: "\<And>r c. r < 9 \<Longrightarrow> c < 9 \<Longrightarrow> (r, c) \<notin> set cells \<Longrightarrow>
                    board s' ! r ! c = board ?s ! r ! c"
      and nz: "\<And>r c. (r, c) \<in> set cells \<Longrightarrow> board s' ! r ! c \<noteq> 0"
      unfolding completes_def by blast+
    have "board s' ! r ! c \<noteq> 0" if "r < 9" "c < 9" for r c
    proof (cases "(r, c) \<in> set cells")
      case True
      then show ?thesis by (rule nz)
    next
      case False
      then have "board ?s ! r ! c \<noteq> 0" using that by (simp add: mem)
      then show ?thesis using agree [OF that False] by simp
    qed
    then have "full9 (board s')" by (simp add: full9_def)
    with d cons have v: "valid_board (board s')" by (rule valid_boardI)
    have "board s' ! r ! c = d + 1" if m: "(r, c, d) \<in> set gs" for r c d
    proof -
      have r: "r < 9" "c < 9" using vg(1) [OF m] by simp_all
      have gv: "board ?s ! r ! c = d + 1" using m by (rule given_val)
      then have "(r, c) \<notin> set cells" by (simp add: mem)
      from agree [OF r this] gv show ?thesis by simp
    qed
    then have h: "givens_honoured (board s') gs" by (auto simp: honoured_iff)
    have "solve_from_scratch g gs = Inr (board s', g')"
      using res True unfolding cells_def by (simp add: solve_from_scratch_def Let_def)
    with v h show ?thesis by blast
  next
    case False
    with post have none: "\<not> completes (board ?s) cells bb" by simp
    note bb = valid_boardD [OF assms(2)]
    have "bb ! r ! c = board ?s ! r ! c" if t: "r < 9" "c < 9" "(r, c) \<notin> set cells" for r c
    proof -
      from not_cell [OF t] obtain d where m: "(r, c, d) \<in> set gs" by blast
      then have "bb ! r ! c = d + 1" using assms(3) by (auto simp: honoured_iff)
      with given_val [OF m] show ?thesis by simp
    qed
    moreover have "\<forall>(r, c) \<in> set cells. bb ! r ! c \<noteq> 0"
      using bb(3) mem by (auto simp: full9_def)
    ultimately have "completes (board ?s) cells bb"
      unfolding completes_def using bb(1,2) by blast
    with none show ?thesis by simp
  qed
qed

subsection \<open>Every valid set of givens has a solution\<close>

lemma base_digit_rows: "list_all (\<lambda>r. distinct (map (base_digit r) [0..<9])) [0..<9]"
  by code_simp

lemma base_digit_cols: "list_all (\<lambda>c. distinct (map (\<lambda>r. base_digit r c) [0..<9])) [0..<9]"
  by code_simp

lemma base_digit_boxes:
  "list_all (\<lambda>k. distinct (map (\<lambda>(r, c). base_digit r c) (box_cells_in_board 0 0 (k div 3) (k mod 3)))) [0..<9]"
  by code_simp

lemma base_digit_less: "base_digit r c < 9"
  by (simp add: base_digit_def)

lemma base_digit_inj:
  assumes "r < 9" "c < 9" "r' < 9" "c' < 9" "same_unit (r, c) (r', c')"
    and "base_digit r c = base_digit r' c'"
  shows "(r, c) = (r', c')"
proof -
  from assms(5) consider "r = r'" | "c = c'" | "r div 3 = r' div 3" "c div 3 = c' div 3"
    by (auto simp: same_unit_def)
  then show ?thesis
  proof cases
    case 1
    from base_digit_rows assms(1) have "inj_on (base_digit r) (set [0..<9])"
      by (simp add: list_all_iff distinct_map)
    then have "c = c'" using assms(2,4,6) 1 by (auto simp: inj_on_def)
    with 1 show ?thesis by simp
  next
    case 2
    from base_digit_cols assms(2) have "inj_on (\<lambda>r. base_digit r c) (set [0..<9])"
      by (simp add: list_all_iff distinct_map)
    then have "r = r'" using assms(1,3,6) 2 by (auto simp: inj_on_def)
    with 2 show ?thesis by simp
  next
    case 3
    let ?k = "box_index r c"
    let ?cells = "box_cells_in_board 0 0 (?k div 3) (?k mod 3)"
    have k: "?k < 9" using assms(1,2) by (rule box_index_less)
    have q: "r div 3 < 3" "c div 3 < 3" using assms(1,2) by simp_all
    then have kk: "?k div 3 = r div 3" "?k mod 3 = c div 3" by (simp_all add: box_index_def)
    from base_digit_boxes k have "inj_on (\<lambda>(r, c). base_digit r c) (set ?cells)"
      by (simp add: list_all_iff distinct_map)
    moreover have "(r, c) \<in> set ?cells" "(r', c') \<in> set ?cells"
      using 3 by (simp_all add: box_cells_mem_div kk)
    ultimately show ?thesis using assms(6) by (auto simp: inj_on_def)
  qed
qed

lemma extend_to_bijection:
  assumes "finite U" "S \<subseteq> U" "inj_on f S" "f ` S \<subseteq> U"
  shows "\<exists>g. bij_betw g U U \<and> (\<forall>x \<in> S. g x = f x)"
proof -
  have fin: "finite S" using assms(1,2) by (rule rev_finite_subset)
  have "card (f ` S) = card S" using assms(3) by (rule card_image)
  then have "card (U - S) = card (U - f ` S)"
    using assms(1,2,4) fin by (simp add: card_Diff_subset)
  moreover have "finite (U - S)" "finite (U - f ` S)" using assms(1) by simp_all
  ultimately obtain h where h: "bij_betw h (U - S) (U - f ` S)"
    using finite_same_card_bij by blast
  let ?g = "\<lambda>x. if x \<in> S then f x else h x"
  have 1: "bij_betw ?g S (f ` S)"
    using assms(3) by (simp add: bij_betw_def inj_on_def)
  have "bij_betw ?g (U - S) (U - f ` S) \<longleftrightarrow> bij_betw h (U - S) (U - f ` S)"
    by (rule bij_betw_cong) simp
  with h have 2: "bij_betw ?g (U - S) (U - f ` S)" by simp
  have "bij_betw ?g (S \<union> (U - S)) (f ` S \<union> (U - f ` S))"
    using 1 2 by (rule bij_betw_combine) auto
  moreover have "S \<union> (U - S) = U" "f ` S \<union> (U - f ` S) = U" using assms(2,4) by auto
  ultimately have "bij_betw ?g U U" by simp
  then show ?thesis by (intro exI [of _ ?g]) simp
qed

lemma renaming_exists:
  assumes "distinct (map fst al)" "distinct (map snd al)"
    and "fst ` set al \<subseteq> {0..<9::nat}" "snd ` set al \<subseteq> {0..<9::nat}"
  shows "\<exists>g. bij_betw g {0..<9} {0..<9} \<and> (\<forall>(x, y) \<in> set al. g x = y)"
proof -
  let ?f = "\<lambda>x. the (map_of al x)"
  have val: "?f x = y" if "(x, y) \<in> set al" for x y
    using map_of_is_SomeI [OF assms(1) that] by simp
  have inj: "inj_on ?f (fst ` set al)"
  proof (rule inj_onI)
    fix x x' assume "x \<in> fst ` set al" "x' \<in> fst ` set al" and e: "?f x = ?f x'"
    then obtain y y' where m: "(x, y) \<in> set al" "(x', y') \<in> set al" by auto
    then have "y = y'" using e val by simp
    moreover have "inj_on snd (set al)" using assms(2) by (simp add: distinct_map)
    ultimately have "(x, y) = (x', y')" using m by (intro inj_onD [of snd "set al"]) simp_all
    then show "x = x'" by simp
  qed
  have img: "?f ` fst ` set al \<subseteq> {0..<9}"
  proof
    fix z assume "z \<in> ?f ` fst ` set al"
    then obtain x y where m: "(x, y) \<in> set al" and z: "z = ?f x" by auto
    then have "z = snd (x, y)" using val by simp
    then show "z \<in> {0..<9}" using assms(4) m by blast
  qed
  from extend_to_bijection [OF _ assms(3) inj img]
  obtain g where g: "bij_betw g {0..<9} {0..<9}" "\<forall>x \<in> fst ` set al. g x = ?f x" by auto
  have "\<forall>(x, y) \<in> set al. g x = y"
  proof (clarify)
    fix x y assume m: "(x, y) \<in> set al"
    then have "g x = ?f x" using g(2) by force
    then show "g x = y" using val [OF m] by simp
  qed
  with g(1) show ?thesis by blast
qed

lemma renamed_board_nth:
  "r < 9 \<Longrightarrow> c < 9 \<Longrightarrow> renamed_board f ! r ! c = f (base_digit r c) + 1"
  by (simp add: renamed_board_def)

lemma renamed_board_valid:
  assumes "bij_betw f {0..<9} {0..<9}"
  shows "valid_board (renamed_board f)"
proof (rule valid_boardI)
  show "dims9 (renamed_board f)" by (simp add: dims9_def renamed_board_def)
  show "full9 (renamed_board f)" by (simp add: full9_def renamed_board_nth)
  have rng: "f x < 9" if "x < 9" for x
    using bij_betwE [OF assms] that by auto
  have inj: "inj_on f {0..<9}" using assms by (rule bij_betw_imp_inj_on)
  have le: "renamed_board f ! r ! c \<le> 9" if "r < 9" "c < 9" for r c
    using rng [OF base_digit_less [of r c]] that by (simp add: renamed_board_nth)
  have diff: "renamed_board f ! r ! c \<noteq> renamed_board f ! r' ! c'"
    if t: "r < 9" "c < 9" "r' < 9" "c' < 9" "(r, c) \<noteq> (r', c')" "same_unit (r, c) (r', c')"
    for r c r' c'
  proof
    assume "renamed_board f ! r ! c = renamed_board f ! r' ! c'"
    then have "f (base_digit r c) = f (base_digit r' c')" using t by (simp add: renamed_board_nth)
    then have "base_digit r c = base_digit r' c'"
      using inj base_digit_less [of r c] base_digit_less [of r' c'] by (auto simp: inj_on_def)
    from base_digit_inj [OF t(1,2,3,4,6) this] t(5) show False by simp
  qed
  show "consistent (renamed_board f)" unfolding consistent_def using le diff by blast
qed

lemma completion_exists:
  assumes "valid_givens gs"
  shows "\<exists>b. valid_board b \<and> givens_honoured b gs"
proof -
  note vg = valid_givensD [OF assms]
  let ?al = "map (\<lambda>(r, c, d). (base_digit r c, d)) gs"
  from vg(4) obtain k where "\<forall>(r, c, d) \<in> set gs. box_index r c = k" by blast
  then have k: "box_index r c = k" if "(r, c, d) \<in> set gs" for r c d using that by blast
  have "inj_on (\<lambda>(r, c, d). base_digit r c) (set gs)"
  proof (rule inj_onI)
    fix x y assume m: "x \<in> set gs" "y \<in> set gs"
      and e: "(case x of (r, c, d) \<Rightarrow> base_digit r c) = (case y of (r, c, d) \<Rightarrow> base_digit r c)"
    obtain r c d where x: "x = (r, c, d)" by (cases x)
    obtain r' c' d' where y: "y = (r', c', d')" by (cases y)
    have b: "r < 9" "c < 9" "r' < 9" "c' < 9" using vg(1) m x y by blast+
    have "box_index r c = box_index r' c'" using k m x y by metis
    then have "same_unit (r, c) (r', c')"
      using box_index_eq_iff [OF b] by (simp add: same_unit_def)
    from base_digit_inj [OF b this] e x y have cell: "(r, c) = (r', c')" by simp
    have "inj_on (\<lambda>(r, c, d). (r, c)) (set gs)" using vg(2) by (simp add: distinct_map)
    then show "x = y" using m cell x y by (auto simp: inj_on_def)
  qed
  moreover have "distinct gs" using vg(2) by (simp add: distinct_map)
  ultimately have dk: "distinct (map (\<lambda>(r, c, d). base_digit r c) gs)" by (simp add: distinct_map)
  have f1: "fst \<circ> (\<lambda>(r, c, d). (base_digit r c, d)) = (\<lambda>(r, c, d). base_digit r c)"
    by (auto simp: fun_eq_iff)
  have f2: "snd \<circ> (\<lambda>(r, c, d). (base_digit r c, d)) = (\<lambda>(r, c, d). d)"
    by (auto simp: fun_eq_iff)
  have 1: "distinct (map fst ?al)" using dk by (simp add: f1)
  have 2: "distinct (map snd ?al)" using vg(3) by (simp add: f2)
  have 3: "fst ` set ?al \<subseteq> {0..<9}" using base_digit_less by auto
  have 4: "snd ` set ?al \<subseteq> {0..<9}" using vg(1) by force
  from renaming_exists [OF 1 2 3 4]
  obtain g where g: "bij_betw g {0..<9} {0..<9}" "\<forall>(x, y) \<in> set ?al. g x = y" by blast
  have "renamed_board g ! r ! c = d + 1" if m: "(r, c, d) \<in> set gs" for r c d
  proof -
    have "(base_digit r c, d) \<in> set ?al" using m by force
    from bspec [OF g(2) this] have "g (base_digit r c) = d" by simp
    then show ?thesis using vg(1) [OF m] by (simp add: renamed_board_nth)
  qed
  then have "givens_honoured (renamed_board g) gs"
    by (auto simp: givens_honoured_def list_all_iff)
  with renamed_board_valid [OF g(1)] show ?thesis by blast
qed

lemma solve_from_scratch_total:
  assumes "valid_givens gs"
  shows "\<exists>b g'. solve_from_scratch g gs = Inr (b, g') \<and> valid_board b \<and> givens_honoured b gs"
proof -
  from completion_exists [OF assms] obtain bb where "valid_board bb" "givens_honoured bb gs" by blast
  with assms show ?thesis by (rule solve_from_scratch_spec)
qed

subsection \<open>The exact-cover matrix\<close>

lemma concat_upt_length:
  "length (concat (map (\<lambda>r. map (f r) [0..<n]) [0..<m])) = m * n"
  by (induction m) simp_all

lemma concat_upt_nth:
  "i < m * n \<Longrightarrow> concat (map (\<lambda>r. map (f r) [0..<n]) [0..<m]) ! i = f (i div n) (i mod n)"
proof (induction m)
  case 0
  then show ?case by simp
next
  case (Suc m)
  have n: "0 < n" using Suc.prems by (cases n) simp_all
  show ?case
  proof (cases "i < m * n")
    case True
    then show ?thesis using Suc.IH by (simp add: nth_append concat_upt_length)
  next
    case False
    then have ge: "m * n \<le> i" by simp
    have "i div n = m"
      using ge Suc.prems by (intro div_nat_eqI) (simp_all add: mult.commute)
    moreover have "i mod n = i - m * n"
      using ge Suc.prems by (metis \<open>i div n = m\<close> minus_mult_div_eq_mod mult.commute)
    moreover have "i - m * n < n" using ge Suc.prems by simp
    ultimately show ?thesis using False by (simp add: nth_append concat_upt_length)
  qed
qed

lemma length_all_candidates: "length all_candidates = 729"
proof -
  have "length (concat (map (\<lambda>c. map (\<lambda>d. (r, c, d)) [0..<9]) [0..<9])) = 81" for r :: nat
    using concat_upt_length [of "\<lambda>c d. (r, c, d)" 9 9] by simp
  then show ?thesis
    by (simp add: all_candidates_def length_concat comp_def sum_list_triv)
qed

lemma all_candidates_nth:
  assumes "i < 729"
  shows "all_candidates ! i = (i div 81, i div 9 mod 9, i mod 9)"
proof -
  have inner: "concat (map (\<lambda>c. map (\<lambda>d. (r, c, d)) [0..<9]) [0..<9])
               = map (\<lambda>j. (r, j div 9, j mod 9)) [0..<81]" for r :: nat
  proof (rule nth_equalityI)
    show "length (concat (map (\<lambda>c. map (\<lambda>d. (r, c, d)) [0..<9]) [0..<9]))
          = length (map (\<lambda>j. (r, j div 9, j mod 9)) [0..<81])"
      using concat_upt_length [of "\<lambda>c d. (r, c, d)" 9 9] by simp
  next
    fix j assume "j < length (concat (map (\<lambda>c. map (\<lambda>d. (r, c, d)) [0..<9]) [0..<9]))"
    then have j: "j < 81" using concat_upt_length [of "\<lambda>c d. (r, c, d)" 9 9] by simp
    then show "concat (map (\<lambda>c. map (\<lambda>d. (r, c, d)) [0..<9]) [0..<9]) ! j
               = map (\<lambda>j. (r, j div 9, j mod 9)) [0..<81] ! j"
      using concat_upt_nth [of j 9 9 "\<lambda>c d. (r, c, d)"] by simp
  qed
  have "all_candidates = concat (map (\<lambda>r. map (\<lambda>j. (r, j div 9, j mod 9)) [0..<81]) [0..<9])"
    unfolding all_candidates_def inner ..
  then have "all_candidates ! i = (i div 81, i mod 81 div 9, i mod 81 mod 9)"
    using concat_upt_nth [of i 9 81 "\<lambda>r j. (r, j div 9, j mod 9)"] assms by simp
  moreover have "i mod 81 div 9 = i div 9 mod 9"
    using mod_mult2_eq [of i 9 9] by simp
  moreover have "i mod 81 mod 9 = i mod 9"
    by (simp add: mod_mod_cancel)
  ultimately show ?thesis by simp
qed

lemma cols_for_row_nth:
  "rid < 729 \<Longrightarrow>
   cols_for_row ! rid = col_ids_for_candidate (rid div 81) (rid div 9 mod 9) (rid mod 9)"
  by (simp add: cols_for_row_def length_all_candidates all_candidates_nth)

lemma length_cols_for_row: "length cols_for_row = 729"
  by (simp add: cols_for_row_def length_all_candidates)

lemma row_id_less: "r < 9 \<Longrightarrow> c < 9 \<Longrightarrow> d < 9 \<Longrightarrow> row_id r c d < 729"
  by (simp add: row_id_def)

lemma row_id_parts:
  assumes "r < 9" "c < 9" "d < 9"
  shows "row_id r c d div 81 = r" "row_id r c d div 9 mod 9 = c" "row_id r c d mod 9 = d"
    "row_id r c d div 9 = r * 9 + c"
proof -
  have q: "row_id r c d div 9 = r * 9 + c" using assms by (simp add: row_id_def)
  show "row_id r c d div 9 = r * 9 + c" by (rule q)
  have "((r * 9 + c) * 9 + d) mod 9 = d mod 9" by (simp only: mod_mult_self3)
  then show "row_id r c d mod 9 = d" using assms by (simp only: row_id_def mod_less)
  show "row_id r c d div 9 mod 9 = c" using assms by (simp add: q)
  have "row_id r c d div 81 = row_id r c d div 9 div 9" by (simp add: div_mult2_eq)
  then show "row_id r c d div 81 = r" using assms by (simp add: q)
qed

lemma row_id_of_parts: "row_id (rid div 81) (rid div 9 mod 9) (rid mod 9) = rid"
proof -
  have "rid div 81 = rid div 9 div 9" by (simp add: div_mult2_eq)
  then show ?thesis by (simp add: row_id_def)
qed

lemma parts_less: "rid < 729 \<Longrightarrow> rid div 81 < 9 \<and> rid div 9 mod 9 < 9 \<and> rid mod 9 < (9::nat)"
  by (simp add: less_mult_imp_div_less)

lemma cols_for_row_row_id:
  "r < 9 \<Longrightarrow> c < 9 \<Longrightarrow> d < 9 \<Longrightarrow> cols_for_row ! row_id r c d = col_ids_for_candidate r c d"
  by (simp add: cols_for_row_nth row_id_less row_id_parts)

lemma col_ids_props:
  assumes "r < 9" "c < 9" "d < 9"
  shows "distinct (col_ids_for_candidate r c d)"
    and "\<forall>k \<in> set (col_ids_for_candidate r c d). k < 324"
proof -
  have "box_index r c < 9" using assms(1,2) by (rule box_index_less)
  then show "distinct (col_ids_for_candidate r c d)"
    "\<forall>k \<in> set (col_ids_for_candidate r c d). k < 324"
    using assms by (simp_all add: col_ids_for_candidate_def)
qed

lemma col_ids_mem:
  assumes "r < 9" "c < 9" "d < 9"
  shows "k \<in> set (col_ids_for_candidate r c d) \<longleftrightarrow>
           k = r * 9 + d \<or> k = 81 + c * 9 + d \<or> k = 162 + box_index r c * 9 + d \<or> k = 243 + r * 9 + c"
  by (auto simp: col_ids_for_candidate_def)

end
